theory Spec2Isabelle
  imports Complex_Main "HOL-Library.Log_Nat"
begin

section \<open>The synthetic marketing-mix data generator\<close>

text \<open>
  A shallow embedding of \<^verbatim>\<open>src/data_generation.py\<close>. The module has one function,
  \<^verbatim>\<open>generate_mmm_data(weeks=156)\<close>, with two nested helpers, \<^verbatim>\<open>apply_adstock\<close> and
  \<^verbatim>\<open>apply_saturation\<close>.

  Conventions of the embedding:
  \<^item> in the generator a one-dimensional float array is a \<open>real list\<close>: arithmetic is
    that of the real numbers, without the rounding, overflow, infinities and NaN of IEEE
    doubles;
  \<^item> the Saturation Transform is also embedded over IEEE doubles
    (\<open>apply_saturation_float64\<close>), with round to nearest, ties to even, overflow to
    infinity and subnormal numbers, since what it guarantees depends on the rounding;
  \<^item> inside a run Python's \<^verbatim>\<open>weeks\<close> is an \<open>int\<close>; \<open>call_generate_mmm_data\<close> is the call
    with an argument that may be an int or a float;
  \<^item> the global state of \<^verbatim>\<open>np.random\<close> is threaded explicitly: the generator takes the
    state it finds and returns the state it leaves, also when it raises;
  \<^item> the samplers of the random source are not part of the module, so they are a
    parameter (\<open>rng_ops\<close>): how a seed becomes a state, and how one Gamma or one Normal
    variate is drawn from a state;
  \<^item> a raised exception is the \<open>Inl\<close> of a sum.
\<close>

subsection \<open>Data\<close>

datatype error = ValueError | TypeError

record 's rng_ops =
  seed :: "int \<Rightarrow> 's"
  gamma_draw :: "real \<Rightarrow> real \<Rightarrow> 's \<Rightarrow> real \<times> 's"
  normal_draw :: "real \<Rightarrow> real \<Rightarrow> 's \<Rightarrow> real \<times> 's"

text \<open>The data frame: four columns, row \<open>t\<close> being index \<open>t\<close> of each.\<close>

record dataset =
  week :: "int list"
  tv_spend :: "real list"
  search_spend :: "real list"
  sales :: "real list"

subsection \<open>Library operations the module calls\<close>

text \<open>
  Filling an array of \<open>n\<close> variates: \<open>n\<close> successive draws, each from the state the
  previous one left.
\<close>

fun draws :: "('s \<Rightarrow> real \<times> 's) \<Rightarrow> 's \<Rightarrow> nat \<Rightarrow> real list \<times> 's" where
  "draws f s 0 = ([], s)"
| "draws f s (Suc n) =
     (case f s of (x, s') \<Rightarrow> (case draws f s' n of (xs, s'') \<Rightarrow> (x # xs, s'')))"

text \<open>
  \<^verbatim>\<open>np.random.gamma(shape, scale, size=n)\<close> and \<^verbatim>\<open>np.random.normal(loc, scale, size=n)\<close>:
  a negative \<open>n\<close> raises \<^verbatim>\<open>ValueError\<close> (negative dimensions are not allowed) and
  leaves the state as it was.
\<close>

definition np_random_gamma ::
  "'s rng_ops \<Rightarrow> real \<Rightarrow> real \<Rightarrow> int \<Rightarrow> 's \<Rightarrow> (error + real list) \<times> 's" where
  "np_random_gamma R shape scale n s =
     (if n < 0 then (Inl ValueError, s)
      else (case draws (gamma_draw R shape scale) s (nat n) of (xs, s') \<Rightarrow> (Inr xs, s')))"

definition np_random_normal ::
  "'s rng_ops \<Rightarrow> real \<Rightarrow> real \<Rightarrow> int \<Rightarrow> 's \<Rightarrow> (error + real list) \<times> 's" where
  "np_random_normal R loc scale n s =
     (if n < 0 then (Inl ValueError, s)
      else (case draws (normal_draw R loc scale) s (nat n) of (xs, s') \<Rightarrow> (Inr xs, s')))"

text \<open>
  \<^verbatim>\<open>pd.date_range(start='2021-01-01', periods=n, freq='W')\<close>: the \<open>n\<close> Sundays from
  2021-01-03 on, the first Sunday on or after the start date. A date is the number of
  days since 2021-01-01. Fewer than one period gives the empty range; a version of
  the library that rejects a negative \<open>n\<close> instead raises before any sampling call, as
  the sampling call that follows does.
\<close>

definition date_range :: "int \<Rightarrow> int list" where
  "date_range periods = map (\<lambda>t. 2 + 7 * int t) [0..<nat periods]"

text \<open>
  A bound of a slice \<^verbatim>\<open>a[lo:hi]\<close> over an array of length \<open>n\<close>: a negative bound counts
  from the end, and every bound is clamped to \<open>0..n\<close>.
\<close>

definition slice_index :: "nat \<Rightarrow> int \<Rightarrow> nat" where
  "slice_index n i = (if i < 0 then nat (max (i + int n) 0) else min (nat i) n)"

text \<open>\<^verbatim>\<open>a[lo:hi] += v\<close>\<close>

definition slice_add :: "real list \<Rightarrow> int \<Rightarrow> int \<Rightarrow> real \<Rightarrow> real list" where
  "slice_add a lo hi v =
     map (\<lambda>(i, x). if slice_index (length a) lo \<le> i \<and> i < slice_index (length a) hi
                    then x + v else x)
       (zip [0..<length a] a)"

text \<open>\<^verbatim>\<open>np.clip(a, lo, None)\<close>\<close>

definition np_clip_min :: "real list \<Rightarrow> real \<Rightarrow> real list" where
  "np_clip_min a lo = map (\<lambda>x. max x lo) a"

text \<open>\<^verbatim>\<open>np.arange(n)\<close>, for an integer \<open>n\<close>\<close>

definition np_arange :: "int \<Rightarrow> real list" where
  "np_arange n = map real [0..<nat n]"

subsection \<open>The marketing transforms\<close>

text \<open>
  \<^verbatim>\<open>
  def apply_adstock(spend, alpha):
      adstocked_spend = np.zeros_like(spend)
      for t in range(1, len(spend)):
          adstocked_spend[t] = spend[t] + alpha * adstocked_spend[t-1]
      return adstocked_spend
  \<close>
  The loop is \<open>adstock_loop\<close>, from \<open>t\<close> on, over the array written so far.
\<close>

function adstock_loop :: "real list \<Rightarrow> real \<Rightarrow> nat \<Rightarrow> real list \<Rightarrow> real list" where
  "adstock_loop spend alpha t adstocked_spend =
     (if t < length spend
      then adstock_loop spend alpha (Suc t)
             (adstocked_spend[t := spend ! t + alpha * adstocked_spend ! (t - 1)])
      else adstocked_spend)"
  by pat_completeness auto
termination
  by (relation "measure (\<lambda>(spend, alpha, t, a). length spend - t)") auto

declare adstock_loop.simps [simp del]

definition apply_adstock :: "real list \<Rightarrow> real \<Rightarrow> real list" where
  "apply_adstock spend alpha =
     adstock_loop spend alpha 1 (replicate (length spend) 0)"

text \<open>
  \<^verbatim>\<open>
  def apply_saturation(spend, K):
      return spend / (spend + K)
  \<close>
  elementwise, with the scalar \<open>K\<close> broadcast, in exact arithmetic.
\<close>

definition apply_saturation :: "real list \<Rightarrow> real \<Rightarrow> real list" where
  "apply_saturation spend K = map (\<lambda>x. x / (x + K)) spend"

subsection \<open>The generator\<close>

definition baseline_sales :: real where
  "baseline_sales = 10000"

definition seasonality :: "int \<Rightarrow> real list" where
  "seasonality weeks = map (\<lambda>x. 1 + 0.2 * sin (2 * pi * x / 52)) (np_arange weeks)"

text \<open>
  \<^verbatim>\<open>generate_mmm_data(weeks)\<close>, statement by statement. The locals are named after the
  source's, shortened where a column of the data frame has the name already:
  \<open>dates\<close> is \<^verbatim>\<open>date_range\<close>, \<open>gamma\<close> the array \<^verbatim>\<open>tv_spend\<close> as drawn and \<open>tv\<close> the same
  after the campaign boost, \<open>normal\<close> the array \<^verbatim>\<open>search_spend\<close> as drawn and \<open>search\<close>
  the same after \<^verbatim>\<open>np.clip\<close>, \<open>sales0\<close> is \<^verbatim>\<open>sales\<close> before the noise is added. The
  first argument is the random source's samplers, the last the state of the random
  source when the function is called; \<^verbatim>\<open>np.random.seed(42)\<close> replaces that state.
\<close>

definition generate_mmm_data :: "'s rng_ops \<Rightarrow> int \<Rightarrow> 's \<Rightarrow> (error + dataset) \<times> 's" where
  "generate_mmm_data R weeks s0 =
     (let s1 = seed R 42;
          dates = date_range weeks
      in case np_random_gamma R 2 1000 weeks s1 of
           (Inl e, s2) \<Rightarrow> (Inl e, s2)
         | (Inr gamma, s2) \<Rightarrow>
             (let tv = slice_add gamma (weeks div 3) (weeks div 3 + 10) 5000
              in case np_random_normal R 2000 500 weeks s2 of
                   (Inl e, s3) \<Rightarrow> (Inl e, s3)
                 | (Inr normal, s3) \<Rightarrow>
                     (let search = np_clip_min normal 500;
                          tv_effect =
                            map (\<lambda>x. 0.5 * x) (apply_saturation (apply_adstock tv 0.6) 3000);
                          search_effect =
                            map (\<lambda>x. 0.3 * x) (apply_saturation (apply_adstock search 0.1) 500);
                          sales0 =
                            map2 (\<lambda>x y. x * y)
                              (map2 (\<lambda>x y. x + y)
                                 (map (\<lambda>x. baseline_sales + x) (map (\<lambda>x. x * 50000) tv_effect))
                                 (map (\<lambda>x. x * 20000) search_effect))
                              (seasonality weeks)
                      in case np_random_normal R 0 500 weeks s3 of
                           (Inl e, s4) \<Rightarrow> (Inl e, s4)
                         | (Inr noise, s4) \<Rightarrow>
                             (Inr \<lparr>week = dates, tv_spend = tv, search_spend = search,
                                   sales = map2 (\<lambda>x y. x + y) sales0 noise\<rparr>, s4))))"

text \<open>
  The three sampling calls of a run with \<open>0 \<le> weeks\<close>, in the order the module makes
  them, each with the values drawn and the state left: the Gamma call from the seeded
  state, the Normal call for Search from the state the Gamma call left, and the Normal
  call for the noise from the state the Search call left.
\<close>

definition gamma_sample :: "'s rng_ops \<Rightarrow> int \<Rightarrow> real list \<times> 's" where
  "gamma_sample R weeks = draws (gamma_draw R 2 1000) (seed R 42) (nat weeks)"

definition search_sample :: "'s rng_ops \<Rightarrow> int \<Rightarrow> real list \<times> 's" where
  "search_sample R weeks =
     draws (normal_draw R 2000 500) (snd (gamma_sample R weeks)) (nat weeks)"

definition noise_sample :: "'s rng_ops \<Rightarrow> int \<Rightarrow> real list \<times> 's" where
  "noise_sample R weeks =
     draws (normal_draw R 0 500) (snd (search_sample R weeks)) (nat weeks)"

text \<open>
  A stand-in random source for concrete runs: the state is a counter, and a variate is
  a fixed function of it.
\<close>

definition counter_rng :: "nat rng_ops" where
  "counter_rng =
     \<lparr>seed = (\<lambda>n. nat n),
      gamma_draw = (\<lambda>shape scale s. (shape * scale * real (s mod 3), Suc s)),
      normal_draw = (\<lambda>loc scale s. (loc + scale * (real (s mod 7) - 4), Suc s))\<rparr>"

text \<open>
  The one property of the Gamma sampler the module relies on: a variate of shape 2 and
  scale 1000 is never negative.
\<close>

definition gamma_nonneg :: "'s rng_ops \<Rightarrow> bool" where
  "gamma_nonneg R = (\<forall>s. 0 \<le> fst (gamma_draw R 2 1000 s))"

subsection \<open>The call, for an argument of either numeric type\<close>




subsection \<open>The Saturation Transform over IEEE doubles\<close>

text \<open>
  A float64 is a finite real number, an infinity or NaN. The sign of a zero is not
  represented (both zeros are \<open>Fin 0\<close>, and they compare equal in the source as well).
\<close>

datatype double = Fin real | PosInf | NegInf | NaN

text \<open>Rounding a real number to the nearest integer, a tie going to the even one.\<close>

definition round_even :: "real \<Rightarrow> int" where
  "round_even r =
     (let f = \<lfloor>r\<rfloor>
      in if r - of_int f < 1 / 2 then f
         else if 1 / 2 < r - of_int f then f + 1
         else if even f then f else f + 1)"

text \<open>
  The binary exponent of the binade of \<open>x \<noteq> 0\<close>, not below that of the smallest normal
  number, and the distance between neighbouring doubles there (53 significant bits).
  Rounding does not use them at 0.
\<close>

definition binade :: "real \<Rightarrow> int" where
  "binade x = max \<lfloor>log 2 \<bar>x\<bar>\<rfloor> (- 1022)"

definition ulp :: "real \<Rightarrow> real" where
  "ulp x = 2 powr (of_int (binade x) - 52)"

text \<open>Round to nearest, ties to even, with the exponent not yet bounded above.\<close>

definition rd :: "real \<Rightarrow> real" where
  "rd x = (if x = 0 then 0 else of_int (round_even (x / ulp x)) * ulp x)"

text \<open>The same with overflow: a rounded magnitude of \<open>2^1024\<close> or more is an infinity.\<close>

definition round_double :: "real \<Rightarrow> double" where
  "round_double x =
     (let y = rd x
      in if 2 ^ 1024 \<le> y then PosInf else if y \<le> - (2 ^ 1024) then NegInf else Fin y)"

text \<open>The real numbers that are doubles: those that rounding leaves as they are.\<close>

definition is_double :: "real \<Rightarrow> bool" where
  "is_double x = (round_double x = Fin x)"

text \<open>IEEE addition; opposite infinities give NaN.\<close>

fun fp_add :: "double \<Rightarrow> double \<Rightarrow> double" where
  "fp_add (Fin a) (Fin b) = round_double (a + b)"
| "fp_add NaN _ = NaN"
| "fp_add _ NaN = NaN"
| "fp_add PosInf NegInf = NaN"
| "fp_add NegInf PosInf = NaN"
| "fp_add PosInf _ = PosInf"
| "fp_add _ PosInf = PosInf"
| "fp_add NegInf _ = NegInf"
| "fp_add _ NegInf = NegInf"

text \<open>
  IEEE division, as numpy performs it (a warning, no exception): a finite number over
  an infinity is zero, nonzero over zero is an infinity, and zero over zero or infinity
  over infinity is NaN. A zero divisor is taken as \<open>+0\<close>. In \<open>x / (x + K)\<close> that is the zero
  an exact cancellation \<open>x = - K \<noteq> 0\<close> gives under round to nearest; a sum of two zeros
  may be \<open>-0\<close>, and then the quotient is NaN whatever the sign.
\<close>

fun fp_div :: "double \<Rightarrow> double \<Rightarrow> double" where
  "fp_div (Fin a) (Fin b) =
     (if b = 0 then (if a = 0 then NaN else if 0 < a then PosInf else NegInf)
      else round_double (a / b))"
| "fp_div NaN _ = NaN"
| "fp_div _ NaN = NaN"
| "fp_div (Fin a) _ = Fin 0"
| "fp_div PosInf (Fin b) = (if b < 0 then NegInf else PosInf)"
| "fp_div NegInf (Fin b) = (if b < 0 then PosInf else NegInf)"
| "fp_div _ _ = NaN"

text \<open>
  \<^verbatim>\<open>
  def apply_saturation(spend, K):
      return spend / (spend + K)
  \<close>
  on a float64 array, the scalar \<open>K\<close> converted to float64 and broadcast: each element
  is the rounded quotient of \<open>x\<close> by the rounded sum \<open>x + K\<close>.
\<close>

definition apply_saturation_float64 :: "double list \<Rightarrow> double \<Rightarrow> double list" where
  "apply_saturation_float64 spend K = map (\<lambda>x. fp_div x (fp_add x K)) spend"

section \<open>Properties\<close>

subsection \<open>Sampling\<close>

lemma length_draws: "length (fst (draws f s n)) = n"
proof (induction n arbitrary: s)
  case 0
  show ?case by simp
next
  case (Suc n)
  obtain x s' where fs: "f s = (x, s')" by (cases "f s")
  obtain xs s'' where ds: "draws f s' n = (xs, s'')" by (cases "draws f s' n")
  from Suc [of s'] ds have "length xs = n" by simp
  with fs ds show ?case by simp
qed

subsection \<open>The adstock loop\<close>

lemma length_adstock_loop: "length (adstock_loop spend alpha t a) = length a"
proof (induction spend alpha t a rule: adstock_loop.induct)
  case (1 spend alpha t a)
  show ?case
  proof (cases "t < length spend")
    case True
    with "1" show ?thesis by (subst adstock_loop.simps) simp
  next
    case False
    then show ?thesis by (subst adstock_loop.simps) simp
  qed
qed

lemma adstock_loop_below: "i < t \<Longrightarrow> adstock_loop spend alpha t a ! i = a ! i"
proof (induction spend alpha t a rule: adstock_loop.induct)
  case (1 spend alpha t a)
  show ?case
  proof (cases "t < length spend")
    case True
    with "1" show ?thesis by (subst adstock_loop.simps) simp
  next
    case False
    then show ?thesis by (subst adstock_loop.simps) simp
  qed
qed

lemma adstock_loop_at:
  "0 < t \<Longrightarrow> t \<le> i \<Longrightarrow> i < length spend \<Longrightarrow> length a = length spend \<Longrightarrow>
   adstock_loop spend alpha t a ! i =
     spend ! i + alpha * adstock_loop spend alpha t a ! (i - 1)"
proof (induction spend alpha t a rule: adstock_loop.induct)
  case (1 spend alpha t a)
  let ?a' = "a[t := spend ! t + alpha * a ! (t - 1)]"
  from "1.prems" have lt: "t < length spend" by simp
  then have unf: "adstock_loop spend alpha t a = adstock_loop spend alpha (Suc t) ?a'"
    by (subst adstock_loop.simps) simp
  show ?case
  proof (cases "i = t")
    case True
    have "adstock_loop spend alpha (Suc t) ?a' ! t = ?a' ! t"
      by (rule adstock_loop_below) simp
    moreover have "adstock_loop spend alpha (Suc t) ?a' ! (t - 1) = ?a' ! (t - 1)"
      by (rule adstock_loop_below) simp
    moreover from "1.prems" lt have "?a' ! t = spend ! t + alpha * a ! (t - 1)" by simp
    moreover from "1.prems" have "?a' ! (t - 1) = a ! (t - 1)" by simp
    ultimately show ?thesis using True unf by simp
  next
    case False
    with "1.prems" have "Suc t \<le> i" by simp
    with "1.IH" [OF lt] "1.prems" show ?thesis unfolding unf by simp
  qed
qed

lemma length_apply_adstock: "length (apply_adstock spend alpha) = length spend"
  by (simp add: apply_adstock_def length_adstock_loop)

lemma apply_adstock_0: "spend \<noteq> [] \<Longrightarrow> apply_adstock spend alpha ! 0 = 0"
  by (simp add: apply_adstock_def adstock_loop_below)

lemma apply_adstock_rec:
  "1 \<le> t \<Longrightarrow> t < length spend \<Longrightarrow>
   apply_adstock spend alpha ! t = spend ! t + alpha * apply_adstock spend alpha ! (t - 1)"
  unfolding apply_adstock_def by (rule adstock_loop_at) simp_all

subsection \<open>What a run returns\<close>

lemma generate_nonneg_weeks:
  assumes "0 \<le> weeks"
  shows "generate_mmm_data R weeks s0 =
    (Inr \<lparr>week = date_range weeks,
          tv_spend = slice_add (fst (gamma_sample R weeks)) (weeks div 3) (weeks div 3 + 10) 5000,
          search_spend = np_clip_min (fst (search_sample R weeks)) 500,
          sales =
            map2 (\<lambda>x y. x + y)
              (map2 (\<lambda>x y. x * y)
                 (map2 (\<lambda>x y. x + y)
                    (map (\<lambda>x. baseline_sales + x)
                       (map (\<lambda>x. x * 50000)
                          (map (\<lambda>x. 0.5 * x)
                             (apply_saturation
                                (apply_adstock
                                   (slice_add (fst (gamma_sample R weeks)) (weeks div 3)
                                      (weeks div 3 + 10) 5000) 0.6) 3000))))
                    (map (\<lambda>x. x * 20000)
                       (map (\<lambda>x. 0.3 * x)
                          (apply_saturation
                             (apply_adstock (np_clip_min (fst (search_sample R weeks)) 500) 0.1)
                             500))))
                 (seasonality weeks))
              (fst (noise_sample R weeks))\<rparr>,
     snd (noise_sample R weeks))"
proof -
  from assms have nl: "\<not> weeks < 0" by simp
  show ?thesis
    unfolding generate_mmm_data_def np_random_gamma_def np_random_normal_def
      gamma_sample_def search_sample_def noise_sample_def Let_def
    by (simp only: nl if_False split_beta prod.case sum.case fst_conv snd_conv)
qed

lemma generate_negative_weeks:
  "weeks < 0 \<Longrightarrow> generate_mmm_data R weeks s0 = (Inl ValueError, seed R 42)"
  by (simp add: generate_mmm_data_def np_random_gamma_def Let_def)

subsection \<open>Adstock: sign and monotonicity\<close>

lemma apply_adstock_nonneg_nth:
  assumes spend: "\<forall>x\<in>set spend. 0 \<le> x" and alpha: "0 \<le> alpha"
  shows "t < length spend \<Longrightarrow> 0 \<le> apply_adstock spend alpha ! t"
proof (induction t)
  case 0
  then have "spend \<noteq> []" by auto
  then show ?case by (simp add: apply_adstock_0)
next
  case (Suc t)
  then have ih: "0 \<le> apply_adstock spend alpha ! t" by simp
  from Suc.prems spend have "0 \<le> spend ! Suc t" by simp
  moreover from alpha ih have "0 \<le> alpha * apply_adstock spend alpha ! t" by simp
  moreover from Suc.prems
  have "apply_adstock spend alpha ! Suc t =
          spend ! Suc t + alpha * apply_adstock spend alpha ! (Suc t - 1)"
    by (intro apply_adstock_rec) simp_all
  ultimately show ?case by simp
qed

lemma apply_adstock_nonneg:
  assumes "\<forall>x\<in>set spend. 0 \<le> x" and "0 \<le> alpha"
  shows "\<forall>y\<in>set (apply_adstock spend alpha). 0 \<le> y"
proof
  fix y assume "y \<in> set (apply_adstock spend alpha)"
  then obtain t where "t < length (apply_adstock spend alpha)" "y = apply_adstock spend alpha ! t"
    by (auto simp: in_set_conv_nth)
  with assms show "0 \<le> y"
    by (simp add: length_apply_adstock apply_adstock_nonneg_nth)
qed

lemma apply_adstock_mono_nth:
  assumes spend: "\<forall>x\<in>set spend. 0 \<le> x" and a1: "0 \<le> a1" and le: "a1 \<le> a2"
  shows "t < length spend \<Longrightarrow> apply_adstock spend a1 ! t \<le> apply_adstock spend a2 ! t"
proof (induction t)
  case 0
  then have "spend \<noteq> []" by auto
  then show ?case by (simp add: apply_adstock_0)
next
  case (Suc t)
  then have ih: "apply_adstock spend a1 ! t \<le> apply_adstock spend a2 ! t" by simp
  from Suc.prems spend a1 have nn: "0 \<le> apply_adstock spend a1 ! t"
    by (simp add: apply_adstock_nonneg_nth)
  from a1 le have a2: "0 \<le> a2" by simp
  from le ih nn a2 have "a1 * apply_adstock spend a1 ! t \<le> a2 * apply_adstock spend a2 ! t"
    by (intro mult_mono) simp_all
  moreover from Suc.prems
  have "apply_adstock spend a1 ! Suc t =
          spend ! Suc t + a1 * apply_adstock spend a1 ! (Suc t - 1)"
    by (intro apply_adstock_rec) simp_all
  moreover from Suc.prems
  have "apply_adstock spend a2 ! Suc t =
          spend ! Suc t + a2 * apply_adstock spend a2 ! (Suc t - 1)"
    by (intro apply_adstock_rec) simp_all
  ultimately show ?case by simp
qed

subsection \<open>The saturation curve\<close>

lemma saturation_value_bounds:
  fixes x K :: real
  assumes "0 < K" and "0 \<le> x"
  shows "0 \<le> x / (x + K)" and "x / (x + K) < 1"
  using assms by simp_all

lemma saturation_value_strict_mono:
  fixes x y K :: real
  assumes "0 < K" and "0 \<le> x" and "x < y"
  shows "x / (x + K) < y / (y + K)"
proof -
  from assms have px: "0 < x + K" and py: "0 < y + K" by simp_all
  from assms have "x * (y + K) < y * (x + K)" by (simp add: algebra_simps)
  with px py show ?thesis by (simp add: divide_simps mult.commute)
qed

subsection \<open>Samples, slices and columns\<close>

lemma draws_all:
  assumes "\<And>s. P (fst (f s))"
  shows "\<forall>x\<in>set (fst (draws f s n)). P x"
proof (induction n arbitrary: s)
  case 0
  show ?case by simp
next
  case (Suc n)
  obtain x s' where fs: "f s = (x, s')" by (cases "f s")
  obtain xs s'' where ds: "draws f s' n = (xs, s'')" by (cases "draws f s' n")
  from assms [of s] fs have "P x" by simp
  moreover from Suc [of s'] ds have "\<forall>y\<in>set xs. P y" by simp
  ultimately show ?case using fs ds by simp
qed

lemma length_gamma_sample: "length (fst (gamma_sample R weeks)) = nat weeks"
  by (simp add: gamma_sample_def length_draws)

lemma length_search_sample: "length (fst (search_sample R weeks)) = nat weeks"
  by (simp add: search_sample_def length_draws)

lemma length_noise_sample: "length (fst (noise_sample R weeks)) = nat weeks"
  by (simp add: noise_sample_def length_draws)

lemma length_slice_add: "length (slice_add a lo hi v) = length a"
  by (simp add: slice_add_def)

lemma slice_add_nth:
  "i < length a \<Longrightarrow>
   slice_add a lo hi v ! i =
     (if slice_index (length a) lo \<le> i \<and> i < slice_index (length a) hi
      then a ! i + v else a ! i)"
  by (simp add: slice_add_def)

lemma slice_index_lower: "0 \<le> lo \<Longrightarrow> i < n \<Longrightarrow> (slice_index n lo \<le> i) = (lo \<le> int i)"
  by (auto simp: slice_index_def min_def)

lemma slice_index_upper: "0 \<le> hi \<Longrightarrow> i < n \<Longrightarrow> (i < slice_index n hi) = (int i < hi)"
  by (auto simp: slice_index_def min_def)

lemma slice_add_window:
  assumes "0 \<le> lo" and "0 \<le> hi" and "i < length a"
  shows "slice_add a lo hi v ! i = a ! i + (if lo \<le> int i \<and> int i < hi then v else 0)"
  using assms by (simp add: slice_add_nth slice_index_lower slice_index_upper)

lemma length_np_clip_min: "length (np_clip_min a lo) = length a"
  by (simp add: np_clip_min_def)

lemma length_apply_saturation: "length (apply_saturation spend K) = length spend"
  by (simp add: apply_saturation_def)

lemma length_seasonality: "0 \<le> weeks \<Longrightarrow> length (seasonality weeks) = nat weeks"
  by (simp add: seasonality_def np_arange_def)

lemma seasonality_nth:
  "t < nat weeks \<Longrightarrow> seasonality weeks ! t = 1 + 0.2 * sin (2 * pi * real t / 52)"
  by (simp add: seasonality_def np_arange_def mult.commute)

lemma length_date_range: "length (date_range periods) = nat periods"
  by (simp add: date_range_def)

lemma date_range_nth: "t < nat periods \<Longrightarrow> date_range periods ! t = 2 + 7 * int t"
  by (simp add: date_range_def)

lemma date_range_ascending: "sorted_wrt (<) (date_range periods)"
  by (simp add: date_range_def sorted_wrt_map sorted_wrt_upt
      sorted_wrt_mono_rel [OF _ sorted_wrt_upt])

subsection \<open>The columns of a successful run\<close>

lemma generate_columns:
  assumes "0 \<le> weeks"
  obtains d where
    "generate_mmm_data R weeks s0 = (Inr d, snd (noise_sample R weeks))"
    "week d = date_range weeks"
    "tv_spend d =
       slice_add (fst (gamma_sample R weeks)) (weeks div 3) (weeks div 3 + 10) 5000"
    "search_spend d = np_clip_min (fst (search_sample R weeks)) 500"
    "sales d =
       map2 (\<lambda>x y. x + y)
         (map2 (\<lambda>x y. x * y)
            (map2 (\<lambda>x y. x + y)
               (map (\<lambda>x. baseline_sales + x)
                  (map (\<lambda>x. x * 50000)
                     (map (\<lambda>x. 0.5 * x)
                        (apply_saturation (apply_adstock (tv_spend d) 0.6) 3000))))
               (map (\<lambda>x. x * 20000)
                  (map (\<lambda>x. 0.3 * x)
                     (apply_saturation (apply_adstock (search_spend d) 0.1) 500))))
            (seasonality weeks))
         (fst (noise_sample R weeks))"
proof -
  note g = generate_nonneg_weeks [OF assms, of R s0]
  show thesis
    by (rule that [OF g]) (simp_all only: dataset.simps)
qed

lemma generate_lengths:
  assumes "0 \<le> weeks" and "generate_mmm_data R weeks s0 = (Inr d, s)"
  shows "length (week d) = nat weeks" and "length (tv_spend d) = nat weeks"
    and "length (search_spend d) = nat weeks" and "length (sales d) = nat weeks"
proof -
  from assms(1) obtain d' where d':
    "generate_mmm_data R weeks s0 = (Inr d', snd (noise_sample R weeks))"
    "week d' = date_range weeks"
    "tv_spend d' =
       slice_add (fst (gamma_sample R weeks)) (weeks div 3) (weeks div 3 + 10) 5000"
    "search_spend d' = np_clip_min (fst (search_sample R weeks)) 500"
    "sales d' =
       map2 (\<lambda>x y. x + y)
         (map2 (\<lambda>x y. x * y)
            (map2 (\<lambda>x y. x + y)
               (map (\<lambda>x. baseline_sales + x)
                  (map (\<lambda>x. x * 50000)
                     (map (\<lambda>x. 0.5 * x)
                        (apply_saturation (apply_adstock (tv_spend d') 0.6) 3000))))
               (map (\<lambda>x. x * 20000)
                  (map (\<lambda>x. 0.3 * x)
                     (apply_saturation (apply_adstock (search_spend d') 0.1) 500))))
            (seasonality weeks))
         (fst (noise_sample R weeks))"
    by (rule generate_columns)
  from d'(1) assms(2) have eq: "d = d'" by simp
  show "length (week d) = nat weeks"
    unfolding eq d'(2) by (rule length_date_range)
  show tv: "length (tv_spend d) = nat weeks"
    unfolding eq d'(3) by (simp add: length_slice_add length_gamma_sample)
  show se: "length (search_spend d) = nat weeks"
    unfolding eq d'(4) by (simp add: length_np_clip_min length_search_sample)
  from tv se have "length (tv_spend d') = nat weeks" "length (search_spend d') = nat weeks"
    unfolding eq by simp_all
  then show "length (sales d) = nat weeks"
    unfolding eq d'(5) using assms(1)
    by (simp add: length_apply_saturation length_apply_adstock length_seasonality
        length_noise_sample)
qed

lemma generate_sales_nth:
  assumes "0 \<le> weeks" and "generate_mmm_data R weeks s0 = (Inr d, s)" and "t < nat weeks"
  shows "sales d ! t =
    (10000 + 0.5 * 50000 * apply_saturation (apply_adstock (tv_spend d) 0.6) 3000 ! t
       + 0.3 * 20000 * apply_saturation (apply_adstock (search_spend d) 0.1) 500 ! t)
      * (1 + 0.2 * sin (2 * pi * real t / 52))
    + fst (noise_sample R weeks) ! t"
proof -
  from assms(1) obtain d' where d':
    "generate_mmm_data R weeks s0 = (Inr d', snd (noise_sample R weeks))"
    "sales d' =
       map2 (\<lambda>x y. x + y)
         (map2 (\<lambda>x y. x * y)
            (map2 (\<lambda>x y. x + y)
               (map (\<lambda>x. baseline_sales + x)
                  (map (\<lambda>x. x * 50000)
                     (map (\<lambda>x. 0.5 * x)
                        (apply_saturation (apply_adstock (tv_spend d') 0.6) 3000))))
               (map (\<lambda>x. x * 20000)
                  (map (\<lambda>x. 0.3 * x)
                     (apply_saturation (apply_adstock (search_spend d') 0.1) 500))))
            (seasonality weeks))
         (fst (noise_sample R weeks))"
    by (rule generate_columns)
  from d'(1) assms(2) have eq: "d' = d" by simp
  note len = generate_lengths [OF assms(1,2)]
  let ?tv = "apply_saturation (apply_adstock (tv_spend d) 0.6) 3000"
  let ?se = "apply_saturation (apply_adstock (search_spend d) 0.1) 500"
  have ltv: "length ?tv = nat weeks"
    by (simp add: length_apply_saturation length_apply_adstock len)
  have lse: "length ?se = nat weeks"
    by (simp add: length_apply_saturation length_apply_adstock len)
  have lsea: "length (seasonality weeks) = nat weeks"
    using assms(1) by (rule length_seasonality)
  have lno: "length (fst (noise_sample R weeks)) = nat weeks"
    by (rule length_noise_sample)
  have "sales d ! t =
      (baseline_sales + 0.5 * ?tv ! t * 50000 + 0.3 * ?se ! t * 20000) * seasonality weeks ! t
      + fst (noise_sample R weeks) ! t"
    using assms(3) ltv lse lsea lno unfolding d'(2) [unfolded eq]
    by (simp del: map_map)
  then show ?thesis
    using assms(3) by (simp add: seasonality_nth baseline_sales_def)
qed

lemma generate_succeeds_nonneg:
  assumes "generate_mmm_data R weeks s0 = (Inr d, s)"
  shows "0 \<le> weeks"
proof (rule ccontr)
  assume "\<not> 0 \<le> weeks"
  then have "weeks < 0" by simp
  then have "generate_mmm_data R weeks s0 = (Inl ValueError, seed R 42)"
    by (rule generate_negative_weeks)
  with assms show False by simp
qed

lemma gamma_sample_nonneg:
  assumes "gamma_nonneg R"
  shows "\<forall>x\<in>set (fst (gamma_sample R weeks)). 0 \<le> x"
  unfolding gamma_sample_def
  by (rule draws_all) (use assms in \<open>simp add: gamma_nonneg_def\<close>)

lemma slice_add_nonneg:
  assumes "\<forall>x\<in>set a. 0 \<le> x" and "0 \<le> v"
  shows "\<forall>x\<in>set (slice_add a lo hi v). 0 \<le> x"
proof
  fix x assume "x \<in> set (slice_add a lo hi v)"
  then obtain i where i: "i < length a" and x: "x = slice_add a lo hi v ! i"
    by (auto simp: in_set_conv_nth length_slice_add)
  from i assms(1) have "0 \<le> a ! i" by simp
  with assms(2) i x show "0 \<le> x" by (simp add: slice_add_nth)
qed

lemma generate_tv_spend:
  assumes "generate_mmm_data R weeks s0 = (Inr d, s)"
  shows "tv_spend d =
    slice_add (fst (gamma_sample R weeks)) (weeks div 3) (weeks div 3 + 10) 5000"
proof -
  from assms have "0 \<le> weeks" by (rule generate_succeeds_nonneg)
  from generate_nonneg_weeks [OF this, of R s0] assms show ?thesis by simp
qed

lemma generate_search_spend:
  assumes "generate_mmm_data R weeks s0 = (Inr d, s)"
  shows "search_spend d = np_clip_min (fst (search_sample R weeks)) 500"
proof -
  from assms have "0 \<le> weeks" by (rule generate_succeeds_nonneg)
  from generate_nonneg_weeks [OF this, of R s0] assms show ?thesis by simp
qed

lemma generate_week:
  assumes "generate_mmm_data R weeks s0 = (Inr d, s)"
  shows "week d = date_range weeks"
proof -
  from assms have "0 \<le> weeks" by (rule generate_succeeds_nonneg)
  from generate_nonneg_weeks [OF this, of R s0] assms show ?thesis by simp
qed

lemma generate_tv_spend_nonneg:
  assumes "gamma_nonneg R" and "generate_mmm_data R weeks s0 = (Inr d, s)"
  shows "\<forall>x\<in>set (tv_spend d). 0 \<le> x"
  unfolding generate_tv_spend [OF assms(2)]
  by (rule slice_add_nonneg [OF gamma_sample_nonneg [OF assms(1)]]) simp

lemma generate_search_spend_floor:
  assumes "generate_mmm_data R weeks s0 = (Inr d, s)"
  shows "\<forall>x\<in>set (search_spend d). 500 \<le> x"
  unfolding generate_search_spend [OF assms]
  by (simp add: np_clip_min_def)

lemma generate_tv_spend_nth:
  assumes "generate_mmm_data R weeks s0 = (Inr d, s)" and "i < nat weeks"
  shows "tv_spend d ! i =
    fst (gamma_sample R weeks) ! i +
      (if weeks div 3 \<le> int i \<and> int i < weeks div 3 + 10 then 5000 else 0)"
proof -
  from assms(1) have w: "0 \<le> weeks" by (rule generate_succeeds_nonneg)
  then have "0 \<le> weeks div 3" and "0 \<le> weeks div 3 + 10" by simp_all
  with assms(2) show ?thesis
    unfolding generate_tv_spend [OF assms(1)]
    by (intro slice_add_window) (simp_all add: length_gamma_sample)
qed

lemma generate_search_spend_nth:
  assumes "generate_mmm_data R weeks s0 = (Inr d, s)" and "t < nat weeks"
  shows "search_spend d ! t = max (fst (search_sample R weeks) ! t) 500"
  unfolding generate_search_spend [OF assms(1)] using assms(2)
  by (simp add: np_clip_min_def length_search_sample)

subsection \<open>A concrete run, on the stand-in random source\<close>

lemma draws_numeral:
  "draws f s (numeral k) =
     (case f s of (x, s') \<Rightarrow>
        (case draws f s' (pred_numeral k) of (xs, s'') \<Rightarrow> (x # xs, s'')))"
  by (simp add: numeral_eq_Suc)

lemma counter_gamma_sample_4: "gamma_sample counter_rng 4 = ([0, 2000, 4000, 0], 46)"
  by (simp add: gamma_sample_def counter_rng_def draws_numeral)

lemma counter_search_sample_4: "search_sample counter_rng 4 = ([2000, 2500, 3000, 0], 50)"
  unfolding search_sample_def counter_gamma_sample_4 snd_conv
  by (simp add: counter_rng_def draws_numeral)

lemma counter_noise_sample_4: "noise_sample counter_rng 4 = ([- 1500, - 1000, - 500, 0], 54)"
  unfolding noise_sample_def counter_search_sample_4 snd_conv
  by (simp add: counter_rng_def draws_numeral)

lemma counter_gamma_nonneg: "gamma_nonneg counter_rng"
  by (simp add: gamma_nonneg_def counter_rng_def)

lemma slice_add_eval_4:
  "slice_add [0, 2000, 4000, 0] (4 div 3) (4 div 3 + 10) 5000 = [0, 7000, 9000, 5000]"
  by (simp add: slice_add_def slice_index_def upt_rec)

lemma counter_run_4:
  obtains d where "generate_mmm_data counter_rng 4 7 = (Inr d, 54)"
    and "week d = [2, 9, 16, 23]"
    and "tv_spend d = [0, 7000, 9000, 5000]"
    and "search_spend d = [2000, 2500, 3000, 500]"
proof -
  have w: "(0::int) \<le> 4" by simp
  obtain d where d: "generate_mmm_data counter_rng 4 7 = (Inr d, snd (noise_sample counter_rng 4))"
    by (rule generate_columns [OF w, of counter_rng 7])
  from d have run: "generate_mmm_data counter_rng 4 7 = (Inr d, 54)"
    by (simp add: counter_noise_sample_4)
  moreover have "week d = [2, 9, 16, 23]"
    unfolding generate_week [OF run] by (simp add: date_range_def upt_rec)
  moreover have "tv_spend d = [0, 7000, 9000, 5000]"
    unfolding generate_tv_spend [OF run] counter_gamma_sample_4 fst_conv
    by (rule slice_add_eval_4)
  moreover have "search_spend d = [2000, 2500, 3000, 500]"
    unfolding generate_search_spend [OF run] counter_search_sample_4 fst_conv
    by (simp add: np_clip_min_def)
  ultimately show thesis by (rule that)
qed

lemma adstock_eval_tv: "apply_adstock [0, 7000, 9000, 5000] (6 / 10) = [0, 7000, 13200, 12920]"
  by (simp add: apply_adstock_def adstock_loop.simps)

lemma adstock_eval_search:
  "apply_adstock [2000, 2500, 3000, 500] (1 / 10) = [0, 2500, 3250, 825]"
  by (simp add: apply_adstock_def adstock_loop.simps)

subsection \<open>The call with an int or a float\<close>



subsection \<open>Rounding to double precision\<close>

lemma binade_eqI:
  assumes "0 < x" and "2 powr of_int e \<le> x" and "x < 2 powr (of_int e + 1)"
  shows "binade x = max e (- 1022)"
proof -
  from assms have "\<lfloor>log 2 x\<rfloor> = e"
    by (subst floor_log_eq_powr_iff) simp_all
  with assms(1) show ?thesis by (simp add: binade_def)
qed

lemma rd_eval:
  assumes "0 < x" and "2 powr of_int e \<le> x" and "x < 2 powr (of_int e + 1)"
    and "- 1022 \<le> e" and "u = 2 powr (of_int e - 52)"
  shows "rd x = of_int (round_even (x / u)) * u"
proof -
  from binade_eqI [OF assms(1-3)] assms(4) have "binade x = e" by simp
  with assms(1,5) show ?thesis by (simp add: rd_def ulp_def)
qed

text \<open>
  The exponent of a binade without logarithms, by the bit length of an integer, and
  the spacing as a power of two: with these, rounding computes on rational inputs.
\<close>

lemma floor_log2_ge_1:
  assumes "1 \<le> a"
  shows "\<lfloor>log 2 a\<rfloor> = bitlen \<lfloor>a\<rfloor> - 1"
proof -
  define k where "k = \<lfloor>log 2 a\<rfloor>"
  from assms have a0: "0 < a" by simp
  from assms have "0 \<le> log 2 a" by simp
  then have k0: "0 \<le> k" by (simp add: k_def)
  from a0 have b: "2 powr of_int k \<le> a" "a < 2 powr (of_int k + 1)"
    using floor_log_eq_powr_iff [of a 2 k] by (simp_all add: k_def)
  from k0 have p: "(2::real) powr of_int k = of_int (2 ^ nat k)"
    by (simp add: powr_real_of_int)
  from b(1) have "of_int (2 ^ nat k) \<le> a" unfolding p .
  then have l: "2 ^ nat k \<le> \<lfloor>a\<rfloor>" by (simp only: le_floor_iff)
  then have l': "(2::real) powr of_int k \<le> of_int \<lfloor>a\<rfloor>"
    unfolding p by (simp only: of_int_le_iff)
  have "of_int \<lfloor>a\<rfloor> \<le> a" by simp
  with b(2) have u: "of_int \<lfloor>a\<rfloor> < (2::real) powr (of_int k + 1)" by linarith
  have "(0::int) < 2 ^ nat k" by simp
  with l have fp: "0 < \<lfloor>a\<rfloor>" by linarith
  then have "(0::real) < of_int \<lfloor>a\<rfloor>" by simp
  with l' u have "\<lfloor>log 2 (of_int \<lfloor>a\<rfloor>)\<rfloor> = k"
    by (subst floor_log_eq_powr_iff) simp_all
  with fp show ?thesis by (simp add: bitlen_alt_def k_def)
qed


lemma floor_log2_below_1:
  assumes "0 < a" and "a < 1"
  shows "\<lfloor>log 2 a\<rfloor> = - bitlen (\<lceil>1 / a\<rceil> - 1)"
proof -
  define j where "j = - \<lfloor>log 2 a\<rfloor>"
  define m where "m = \<lceil>1 / a\<rceil>"
  from assms have "log 2 a < 0" by simp
  then have j1: "1 \<le> j" unfolding j_def by linarith
  from assms(1) have b: "2 powr (- of_int j) \<le> a" "a < 2 powr (- of_int j + 1)"
    using floor_log_eq_powr_iff [of a 2 "- j"] by (simp_all add: j_def)
  have pj: "(2::real) powr of_int j = of_int (2 ^ nat j)"
    using j1 by (simp add: powr_real_of_int)
  have pj1: "(2::real) powr (of_int j - 1) = of_int (2 ^ nat (j - 1))"
    using j1 powr_real_of_int [of 2 "j - 1"] by simp
  from b(1) assms(1) have "1 / a \<le> 2 powr of_int j"
    by (simp add: powr_minus field_simps)
  then have "1 / a \<le> of_int (2 ^ nat j)" unfolding pj .
  then have mu: "m \<le> 2 ^ nat j" unfolding m_def by (simp only: ceiling_le_iff)
  from b(2) assms(1) have "2 powr (of_int j - 1) < 1 / a"
  proof -
    have "a * 2 powr (of_int j - 1) < 2 powr (- of_int j + 1) * 2 powr (of_int j - 1)"
      using b(2) by (intro mult_strict_right_mono) simp_all
    also have "\<dots> = 1" unfolding powr_add [symmetric] by simp
    finally show ?thesis using assms(1) by (simp add: field_simps)
  qed
  then have "of_int (2 ^ nat (j - 1)) < 1 / a" unfolding pj1 .
  then have ml: "2 ^ nat (j - 1) < m" unfolding m_def by (simp only: less_ceiling_iff)
  from ml have m1: "2 ^ nat (j - 1) \<le> m - 1" by simp
  moreover have "(0::int) < 2 ^ nat (j - 1)" by simp
  ultimately have mp: "0 < m - 1" by linarith
  from m1 have l: "(2::real) powr (of_int j - 1) \<le> of_int (m - 1)"
    unfolding pj1 by (simp only: of_int_le_iff)
  from mu have "m - 1 < 2 ^ nat j" by simp
  then have "(of_int (m - 1) :: real) < of_int (2 ^ nat j)" by (simp only: of_int_less_iff)
  then have u: "of_int (m - 1) < (2::real) powr (of_int (j - 1) + 1)" using pj by simp
  from mp have "(0::real) < of_int (m - 1)" by (simp only: of_int_0_less_iff)
  with l u have "\<lfloor>log 2 (of_int (m - 1))\<rfloor> = j - 1"
    by (subst floor_log_eq_powr_iff) simp_all
  with mp have "bitlen (m - 1) = j" by (simp add: bitlen_alt_def)
  then show ?thesis by (simp add: j_def m_def)
qed

lemma binade_0: "binade 0 = 0"
  by (simp add: binade_def log_def)

lemma binade_code [code]:
  "binade x =
     (if x = 0 then 0
      else max (if 1 \<le> \<bar>x\<bar> then bitlen \<lfloor>\<bar>x\<bar>\<rfloor> - 1 else - bitlen (\<lceil>1 / \<bar>x\<bar>\<rceil> - 1)) (- 1022))"
proof (cases "x = 0")
  case True
  then show ?thesis by (simp add: binade_0)
next
  case False
  then have p: "0 < \<bar>x\<bar>" by simp
  show ?thesis
  proof (cases "1 \<le> \<bar>x\<bar>")
    case True
    with False floor_log2_ge_1 [OF True] show ?thesis by (simp only: binade_def if_True if_False)
  next
    case n: False
    then have "\<bar>x\<bar> < 1" by simp
    from floor_log2_below_1 [OF p this] False n show ?thesis
      by (simp only: binade_def if_True if_False)
  qed
qed

lemma ulp_code [code]:
  "ulp x = (let e = binade x - 52 in if 0 \<le> e then 2 ^ nat e else 1 / 2 ^ nat (- e))"
proof -
  have "ulp x = 2 powr of_int (binade x - 52)" by (simp add: ulp_def)
  also have "\<dots> = (let e = binade x - 52 in if 0 \<le> e then 2 ^ nat e else 1 / 2 ^ nat (- e))"
    unfolding Let_def by (rule powr_int) simp
  finally show ?thesis .
qed

lemma round_even_bounds: "\<lfloor>r\<rfloor> \<le> round_even r \<and> round_even r \<le> \<lfloor>r\<rfloor> + 1"
  by (simp add: round_even_def Let_def)

lemma round_even_of_int: "round_even (of_int n) = n"
  by (simp add: round_even_def Let_def)

lemma round_even_mono:
  assumes "a \<le> b"
  shows "round_even a \<le> round_even b"
proof (cases "\<lfloor>a\<rfloor> = \<lfloor>b\<rfloor>")
  case True
  with assms show ?thesis by (auto simp: round_even_def Let_def)
next
  case False
  with assms have "\<lfloor>a\<rfloor> + 1 \<le> \<lfloor>b\<rfloor>" using floor_mono [of a b] by simp
  with round_even_bounds [of a] round_even_bounds [of b] show ?thesis by linarith
qed

lemma round_even_le_int: "r \<le> of_int n \<Longrightarrow> round_even r \<le> n"
  using round_even_mono [of r "of_int n"] by (simp add: round_even_of_int)

lemma round_even_ge_int: "of_int n \<le> r \<Longrightarrow> n \<le> round_even r"
  using round_even_mono [of "of_int n" r] by (simp add: round_even_of_int)

lemma ulp_pos: "0 < ulp x"
  by (simp add: ulp_def)

lemma binade_mono:
  assumes "0 < a" and "a \<le> b"
  shows "binade a \<le> binade b"
proof -
  from assms have "log 2 a \<le> log 2 b" by simp
  then have "\<lfloor>log 2 a\<rfloor> \<le> \<lfloor>log 2 b\<rfloor>" by (rule floor_mono)
  with assms show ?thesis by (simp add: binade_def)
qed

lemma binade_upper:
  assumes "0 < x"
  shows "x < 2 powr (of_int (binade x) + 1)"
proof -
  have "log 2 x < of_int \<lfloor>log 2 x\<rfloor> + 1" by linarith
  also have "\<dots> \<le> of_int (binade x) + 1" using assms by (simp add: binade_def)
  finally have "log 2 x < of_int (binade x) + 1" .
  with assms show ?thesis by (simp add: log_less_iff)
qed

lemma binade_lower:
  assumes "0 < x" and "- 1022 < binade x"
  shows "2 powr of_int (binade x) \<le> x"
proof -
  from assms have "binade x = \<lfloor>log 2 x\<rfloor>" by (simp add: binade_def max_def split: if_splits)
  then have "of_int (binade x) \<le> log 2 x" by simp
  with assms(1) show ?thesis by (simp add: le_log_iff)
qed

lemma rd_nonneg:
  assumes "0 \<le> x"
  shows "0 \<le> rd x"
proof -
  from assms ulp_pos [of x] have "0 \<le> x / ulp x" by simp
  then have "0 \<le> round_even (x / ulp x)" using round_even_ge_int [of 0] by simp
  with ulp_pos [of x] show ?thesis by (simp add: rd_def)
qed

lemma rd_upper:
  assumes "0 < x"
  shows "rd x \<le> 2 powr (of_int (binade x) + 1)"
proof -
  have "x / ulp x < 2 powr (of_int (binade x) + 1) / ulp x"
    using binade_upper [OF assms] ulp_pos [of x] by (simp add: divide_strict_right_mono)
  also have "2 powr (of_int (binade x) + 1) / ulp x = 2 powr 53"
    by (simp add: ulp_def powr_diff [symmetric])
  also have "\<dots> = of_int (2 ^ 53)" by simp
  finally have "round_even (x / ulp x) \<le> 2 ^ 53" by (intro round_even_le_int) simp
  then have "of_int (round_even (x / ulp x)) * ulp x \<le> of_int (2 ^ 53) * ulp x"
    using ulp_pos [of x] by (intro mult_right_mono) (simp_all del: of_int_power)
  also have "of_int (2 ^ 53) * ulp x = 2 powr 53 * ulp x" by simp
  also have "\<dots> = 2 powr (of_int (binade x) + 1)"
    unfolding ulp_def powr_add [symmetric] by (simp add: add.commute)
  finally show ?thesis using assms by (simp add: rd_def)
qed

lemma rd_lower:
  assumes "0 < x" and "- 1022 < binade x"
  shows "2 powr of_int (binade x) \<le> rd x"
proof -
  have "2 powr of_int (binade x) / ulp x \<le> x / ulp x"
    using binade_lower [OF assms] ulp_pos [of x] by (simp add: divide_right_mono)
  moreover have "2 powr of_int (binade x) / ulp x = 2 powr 52"
    by (simp add: ulp_def powr_diff [symmetric])
  moreover have "(2::real) powr 52 = of_int (2 ^ 52)" by simp
  ultimately have "2 ^ 52 \<le> round_even (x / ulp x)" by (intro round_even_ge_int) simp
  then have "of_int (2 ^ 52) * ulp x \<le> of_int (round_even (x / ulp x)) * ulp x"
    using ulp_pos [of x] by (intro mult_right_mono) (simp_all del: of_int_power)
  moreover have "of_int (2 ^ 52) * ulp x = 2 powr 52 * ulp x" by simp
  moreover have "2 powr 52 * ulp x = 2 powr of_int (binade x)"
    unfolding ulp_def powr_add [symmetric] by simp
  ultimately show ?thesis using assms by (simp add: rd_def)
qed

lemma rd_mono_pos:
  assumes "0 < a" and "a \<le> b"
  shows "rd a \<le> rd b"
proof (cases "binade a = binade b")
  case True
  then have u: "ulp a = ulp b" by (simp add: ulp_def)
  from assms ulp_pos [of b] have "a / ulp b \<le> b / ulp b" by (simp add: divide_right_mono)
  then have "round_even (a / ulp b) \<le> round_even (b / ulp b)" by (rule round_even_mono)
  then have "of_int (round_even (a / ulp b)) * ulp b \<le> of_int (round_even (b / ulp b)) * ulp b"
    using ulp_pos [of b] by (intro mult_right_mono) simp_all
  with assms u show ?thesis by (simp add: rd_def)
next
  case False
  from assms have b: "0 < b" by simp
  from False binade_mono [OF assms] have lt: "binade a < binade b" by simp
  have "- 1022 \<le> binade a" by (simp add: binade_def)
  with lt have nb: "- 1022 < binade b" by simp
  have "rd a \<le> 2 powr (of_int (binade a) + 1)" by (rule rd_upper [OF assms(1)])
  also from lt have "\<dots> \<le> 2 powr of_int (binade b)" by simp
  also have "\<dots> \<le> rd b" by (rule rd_lower [OF b nb])
  finally show ?thesis .
qed

lemma rd_mono:
  assumes "0 \<le> a" and "a \<le> b"
  shows "rd a \<le> rd b"
proof (cases "a = 0")
  case True
  with assms rd_nonneg [of b] show ?thesis by (simp add: rd_def)
next
  case False
  with assms show ?thesis by (intro rd_mono_pos) simp_all
qed

lemma rd_0: "rd 0 = 0"
  by (simp add: rd_def)

lemma rd_1: "rd 1 = 1"
  by (subst rd_eval [where e = 0 and u = "1 / 2 ^ 52"])
     (simp_all add: round_even_def Let_def powr_neg_numeral)

lemma rd_half: "rd (1 / 2) = 1 / 2"
  by (subst rd_eval [where e = "- 1" and u = "1 / 2 ^ 53"])
     (simp_all add: round_even_def Let_def powr_neg_numeral)

lemma is_double_iff: "is_double x \<longleftrightarrow> rd x = x \<and> - (2 ^ 1024) < x \<and> x < 2 ^ 1024"
  by (auto simp: is_double_def round_double_def Let_def)

lemma round_double_finite:
  assumes "- (2 ^ 1024) < rd x" and "rd x < 2 ^ 1024"
  shows "round_double x = Fin (rd x)"
  using assms by (simp add: round_double_def Let_def)

lemma round_double_overflow: "2 ^ 1024 \<le> rd x \<Longrightarrow> round_double x = PosInf"
  by (simp add: round_double_def Let_def)

lemma rd_twice:
  assumes "0 < K" and "rd K = K"
  shows "rd (2 * K) = 2 * K"
proof -
  define n where "n = round_even (K / ulp K)"
  from assms have K: "K = of_int n * ulp K" by (simp add: rd_def n_def)
  have l2: "log 2 (2 * K) = log 2 K + 1" using assms(1) by (simp add: log_mult)
  then have fl: "\<lfloor>log 2 (2 * K)\<rfloor> = \<lfloor>log 2 K\<rfloor> + 1" by simp
  show ?thesis
  proof (cases "- 1022 \<le> \<lfloor>log 2 K\<rfloor>")
    case True
    with assms(1) fl have "binade (2 * K) = binade K + 1" by (simp add: binade_def)
    then have "ulp (2 * K) = 2 powr (1 + (of_int (binade K) - 52))" by (simp add: ulp_def)
    also have "\<dots> = 2 * ulp K" unfolding powr_add ulp_def by simp
    finally have u: "ulp (2 * K) = 2 * ulp K" .
    have "2 * K / ulp (2 * K) = K / ulp K" unfolding u by simp
    also have "\<dots> = of_int n" using K ulp_pos [of K] by (simp add: field_simps)
    finally have "round_even (2 * K / ulp (2 * K)) = n" by (simp add: round_even_of_int)
    with assms(1) show ?thesis unfolding rd_def u using K by simp
  next
    case False
    then have lt: "\<lfloor>log 2 K\<rfloor> + 1 \<le> - 1022" by linarith
    with assms(1) have "binade K = - 1022" unfolding binade_def by (simp only: abs_of_pos; linarith?)
    moreover from lt assms(1) fl have "binade (2 * K) = - 1022"
      unfolding binade_def by (simp only: abs_of_pos; linarith?)
    ultimately have "binade (2 * K) = binade K" by simp
    then have u: "ulp (2 * K) = ulp K" by (simp add: ulp_def)
    have "K / ulp K = of_int n" using K ulp_pos [of K] by (simp add: field_simps)
    then have "2 * K / ulp (2 * K) = of_int (2 * n)" unfolding u by simp
    then have "round_even (2 * K / ulp (2 * K)) = 2 * n" by (simp only: round_even_of_int)
    with assms(1) show ?thesis unfolding rd_def u using K by simp
  qed
qed

subsection \<open>The rounding error of the saturation quotient\<close>

lemma round_even_error: "\<bar>of_int (round_even r) - r\<bar> \<le> 1 / 2"
proof -
  have "of_int \<lfloor>r\<rfloor> \<le> r" and "r < of_int \<lfloor>r\<rfloor> + 1" by linarith+
  then show ?thesis by (auto simp: round_even_def Let_def abs_le_iff)
qed

lemma rd_error: "\<bar>rd y - y\<bar> \<le> ulp y / 2"
proof (cases "y = 0")
  case True
  with ulp_pos [of y] show ?thesis by (simp add: rd_def)
next
  case False
  have "rd y - y = (of_int (round_even (y / ulp y)) - y / ulp y) * ulp y"
    using False ulp_pos [of y] by (simp add: rd_def field_simps)
  then have "\<bar>rd y - y\<bar> = \<bar>of_int (round_even (y / ulp y)) - y / ulp y\<bar> * ulp y"
    using ulp_pos [of y] by (simp add: abs_mult)
  also have "\<dots> \<le> 1 / 2 * ulp y"
    using ulp_pos [of y] round_even_error [of "y / ulp y"] by (intro mult_right_mono) simp_all
  finally show ?thesis by simp
qed

lemma ulp_below_one:
  assumes "0 < y" and "y < 1"
  shows "ulp y \<le> 1 / 2 ^ 53"
proof -
  from assms have "log 2 y < 0" by simp
  then have "\<lfloor>log 2 y\<rfloor> \<le> - 1" by linarith
  with assms(1) have "binade y \<le> - 1" by (simp add: binade_def)
  then have "of_int (binade y) - 52 \<le> (- 53 :: real)" by simp
  then have "ulp y \<le> 2 powr (- 53)" unfolding ulp_def by (subst powr_le_cancel_iff) simp_all
  then show ?thesis by (simp add: powr_neg_numeral)
qed

lemma ulp_relative:
  assumes "2 powr (- 1022) \<le> y"
  shows "ulp y \<le> y / 2 ^ 52"
proof -
  have p: "0 < (2::real) powr (- 1022)" by simp
  with assms have y: "0 < y" by linarith
  from assms y have "- 1022 \<le> log 2 y" by (simp add: le_log_iff)
  then have f: "- 1022 \<le> \<lfloor>log 2 y\<rfloor>" by linarith
  with y have b: "binade y = \<lfloor>log 2 y\<rfloor>" by (simp add: binade_def)
  have "of_int (binade y) \<le> log 2 y" unfolding b by simp
  with y have "2 powr of_int (binade y) \<le> y" by (simp add: le_log_iff)
  moreover have "ulp y = 2 powr of_int (binade y) / 2 ^ 52"
    by (simp add: ulp_def powr_diff)
  ultimately show ?thesis by (simp add: divide_right_mono)
qed

lemma subnormal_grid:
  assumes "0 < y" and "y < 2 powr (- 1022)"
  shows "ulp y = 2 powr (- 1074)"
proof -
  from assms have "log 2 y < - 1022" by (simp add: log_less_iff)
  then have "\<lfloor>log 2 y\<rfloor> \<le> - 1022" by linarith
  with assms(1) have "binade y = - 1022" by (simp add: binade_def)
  then show ?thesis by (simp add: ulp_def)
qed

lemma subnormal_sum_exact:
  assumes "0 \<le> x" and "rd x = x" and "0 < K" and "rd K = K" and "x + K < 2 powr (- 1022)"
  shows "rd (x + K) = x + K"
proof -
  let ?u = "(2::real) powr (- 1074)"
  have up: "0 < ?u" by simp
  from assms have uK: "ulp K = ?u" by (intro subnormal_grid) simp_all
  from assms have uS: "ulp (x + K) = ?u" by (intro subnormal_grid) simp_all
  define m where "m = round_even (K / ?u)"
  from assms(3,4) have K: "K = of_int m * ?u" by (simp add: rd_def uK m_def)
  obtain n where x: "x = of_int n * ?u"
  proof (cases "x = 0")
    case True
    then have "x = of_int 0 * ?u" by simp
    then show ?thesis by (rule that)
  next
    case False
    with assms have "ulp x = ?u" by (intro subnormal_grid) simp_all
    with False assms(2) have "x = of_int (round_even (x / ?u)) * ?u" by (simp add: rd_def)
    then show ?thesis by (rule that)
  qed
  have "(x + K) / ?u = of_int (n + m)"
    using up by (subst x, subst K) (simp add: field_simps)
  then have "round_even ((x + K) / ?u) = n + m" by (simp only: round_even_of_int)
  moreover from assms have "x + K \<noteq> 0" by simp
  ultimately have "rd (x + K) = of_int (n + m) * ?u" by (simp add: rd_def uS)
  also have "\<dots> = x + K" by (subst x, subst K) (simp add: algebra_simps)
  finally show ?thesis .
qed

lemma quotient_rounding_error:
  assumes "0 \<le> r" and "r \<le> 1"
  shows "\<bar>rd r - r\<bar> \<le> 1 / 2 ^ 54"
proof (cases "r = 0 \<or> r = 1")
  case True
  then show ?thesis by (auto simp: rd_0 rd_1)
next
  case False
  with assms have "0 < r" "r < 1" by simp_all
  from ulp_below_one [OF this] rd_error [of r] show ?thesis by simp
qed

lemma saturation_float64_error:
  assumes x: "0 \<le> x" "rd x = x" and K: "0 < K" "rd K = K"
  shows "\<bar>rd (x / rd (x + K)) - x / (x + K)\<bar> \<le> 1 / 2 ^ 52"
proof -
  define s where "s = x + K"
  define s' where "s' = rd s"
  from x(1) K(1) have sp: "0 < s" by (simp add: s_def)
  from x(1) K(1) have "rd x \<le> rd s" unfolding s_def by (intro rd_mono) simp_all
  with x(2) have xs': "x \<le> s'" by (simp add: s'_def)
  from x(1) K(1) have "rd K \<le> rd s" unfolding s_def by (intro rd_mono) simp_all
  with K have s'p: "0 < s'" by (simp add: s'_def)
  have se: "\<bar>s' - s\<bar> \<le> s / 2 ^ 53"
  proof (cases "s < 2 powr (- 1022)")
    case True
    with x K have "s' = s" unfolding s'_def s_def by (intro subnormal_sum_exact) simp_all
    with sp show ?thesis by simp
  next
    case False
    then have "ulp s \<le> s / 2 ^ 52" by (intro ulp_relative) simp
    with rd_error [of s] show ?thesis by (simp add: s'_def)
  qed
  have "x / s' - x / s = x * (s - s') / (s * s')"
    using sp s'p by (simp add: field_simps)
  then have "\<bar>x / s' - x / s\<bar> = x * \<bar>s - s'\<bar> / (s * s')"
    using sp s'p x(1) by (simp add: abs_mult)
  also have "\<dots> \<le> x * (s / 2 ^ 53) / (s * s')"
    using se sp s'p x(1)
    by (intro divide_right_mono mult_left_mono) (simp_all add: abs_minus_commute)
  also have "\<dots> = (x / s') / 2 ^ 53" using sp s'p by simp
  also have "\<dots> \<le> 1 / 2 ^ 53"
    using xs' s'p by (intro divide_right_mono) simp_all
  finally have e1: "\<bar>x / s' - x / s\<bar> \<le> 1 / 2 ^ 53" .
  from x(1) s'p xs' have "0 \<le> x / s'" "x / s' \<le> 1" by simp_all
  then have e2: "\<bar>rd (x / s') - x / s'\<bar> \<le> 1 / 2 ^ 54" by (rule quotient_rounding_error)
  have "\<bar>rd (x / s') - x / s\<bar> \<le> \<bar>rd (x / s') - x / s'\<bar> + \<bar>x / s' - x / s\<bar>" by simp
  also from e1 e2 have "\<dots> \<le> 1 / 2 ^ 54 + 1 / 2 ^ 53" by simp
  also have "\<dots> \<le> (1 / 2 ^ 52 :: real)" by simp
  finally show ?thesis by (simp add: s_def s'_def)
qed

subsection \<open>The saturation quotient in double precision\<close>

lemma saturation_float64_value:
  assumes x: "0 \<le> x" "is_double x" and K: "0 < K" "is_double K"
  shows "\<exists>q. fp_div (Fin x) (fp_add (Fin x) (Fin K)) = Fin q \<and> 0 \<le> q \<and> q \<le> 1 \<and>
    (x = 0 \<longrightarrow> q = 0) \<and> (x = K \<longrightarrow> q = (if 2 * K < 2 ^ 1024 then 1 / 2 else 0))"
proof -
  from x K have rx: "rd x = x" and rK: "rd K = K" by (simp_all add: is_double_iff)
  define s where "s = rd (x + K)"
  from x(1) K(1) have "rd x \<le> rd (x + K)" by (intro rd_mono) simp_all
  with rx have xs: "x \<le> s" by (simp add: s_def)
  from x(1) K(1) have "rd K \<le> rd (x + K)" by (intro rd_mono) simp_all
  with rK K(1) have sp: "0 < s" by (simp add: s_def)
  have twice: "s = 2 * K" if "x = K"
    using that rd_twice [OF K(1) rK] by (simp add: s_def)
  show ?thesis
  proof (cases "2 ^ 1024 \<le> s")
    case True
    then have "fp_add (Fin x) (Fin K) = PosInf"
      by (simp add: s_def round_double_overflow)
    then have "fp_div (Fin x) (fp_add (Fin x) (Fin K)) = Fin 0" by simp
    moreover from True twice have "x = K \<longrightarrow> \<not> 2 * K < 2 ^ 1024" by auto
    ultimately show ?thesis by auto
  next
    case False
    with sp have "fp_add (Fin x) (Fin K) = Fin s"
      by (simp add: s_def round_double_finite)
    with sp have d: "fp_div (Fin x) (fp_add (Fin x) (Fin K)) = round_double (x / s)" by simp
    from x(1) sp xs have q01: "0 \<le> x / s" "x / s \<le> 1" by simp_all
    have r0: "0 \<le> rd (x / s)" by (rule rd_nonneg [OF q01(1)])
    have "rd (x / s) \<le> rd 1" by (rule rd_mono [OF q01])
    then have r1: "rd (x / s) \<le> 1" by (simp add: rd_1)
    from r0 r1 have "round_double (x / s) = Fin (rd (x / s))"
      by (intro round_double_finite) simp_all
    with d have e: "fp_div (Fin x) (fp_add (Fin x) (Fin K)) = Fin (rd (x / s))" by simp
    have z: "rd (x / s) = 0" if "x = 0" using that by (simp add: rd_0)
    have h: "rd (x / s) = 1 / 2 \<and> 2 * K < 2 ^ 1024" if "x = K"
    proof -
      from twice [OF that] False have "2 * K < 2 ^ 1024" by simp
      moreover from twice [OF that] that K(1) have "x / s = 1 / 2" by simp
      ultimately show ?thesis by (simp add: rd_half)
    qed
    from e r0 r1 z h show ?thesis by auto
  qed
qed

lemma saturation_float64_close:
  assumes x: "0 \<le> x" "is_double x" and K: "0 < K" "is_double K"
    and fin: "fp_add (Fin x) (Fin K) \<noteq> PosInf"
  shows "fp_div (Fin x) (fp_add (Fin x) (Fin K)) = Fin (rd (x / rd (x + K)))"
    and "\<bar>rd (x / rd (x + K)) - x / (x + K)\<bar> \<le> 1 / 2 ^ 52"
proof -
  from x K have rx: "rd x = x" and rK: "rd K = K" by (simp_all add: is_double_iff)
  from x(1) K(1) have "rd K \<le> rd (x + K)" by (intro rd_mono) simp_all
  with rK K(1) have sp: "0 < rd (x + K)" by simp
  from fin have "\<not> 2 ^ 1024 \<le> rd (x + K)" by (auto simp: round_double_def Let_def)
  with sp have s: "fp_add (Fin x) (Fin K) = Fin (rd (x + K))"
    by (simp add: round_double_finite)
  from x(1) K(1) have "rd x \<le> rd (x + K)" by (intro rd_mono) simp_all
  with rx have xs: "x \<le> rd (x + K)" by simp
  from x(1) sp xs have q01: "0 \<le> x / rd (x + K)" "x / rd (x + K) \<le> 1" by simp_all
  have r0: "0 \<le> rd (x / rd (x + K))" by (rule rd_nonneg [OF q01(1)])
  have "rd (x / rd (x + K)) \<le> rd 1" by (rule rd_mono [OF q01])
  then have r1: "rd (x / rd (x + K)) \<le> 1" by (simp add: rd_1)
  from r0 r1 have "round_double (x / rd (x + K)) = Fin (rd (x / rd (x + K)))"
    by (intro round_double_finite) simp_all
  with s sp show "fp_div (Fin x) (fp_add (Fin x) (Fin K)) = Fin (rd (x / rd (x + K)))"
    by simp
  show "\<bar>rd (x / rd (x + K)) - x / (x + K)\<bar> \<le> 1 / 2 ^ 52"
    by (rule saturation_float64_error [OF x(1) rx K(1) rK])
qed

subsection \<open>Some doubles and their rounded sums and quotients\<close>

lemma is_doubleI:
  assumes "rd x = x" and "- (2 ^ 1024) < x" and "x < 2 ^ 1024"
  shows "is_double x"
  using assms by (simp add: is_double_iff)

lemma round_double_value:
  assumes "rd x = y" and "- (2 ^ 1024) < y" and "y < 2 ^ 1024"
  shows "round_double x = Fin y"
  using assms by (simp add: round_double_def Let_def)

lemma is_double_0: "is_double 0"
  by (simp add: is_double_iff rd_0)

lemma is_double_1: "is_double 1"
  by (simp add: is_double_iff rd_1)

lemma rd_1e17: "rd 100000000000000000 = 100000000000000000"
  by (subst rd_eval [where e = 56 and u = 16]) (simp_all add: round_even_def Let_def)

lemma rd_1e17_plus_1: "rd 100000000000000001 = 100000000000000000"
  by (subst rd_eval [where e = 56 and u = 16]) (simp_all add: round_even_def Let_def)

lemma rd_2_1023: "rd (2 ^ 1023) = 2 ^ 1023"
  by (subst rd_eval [where e = 1023 and u = "2 ^ 971"]) (simp_all add: round_even_def Let_def)

lemma rd_2_1024: "rd (2 ^ 1024) = 2 ^ 1024"
  by (subst rd_eval [where e = 1024 and u = "2 ^ 972"]) (simp_all add: round_even_def Let_def)

lemma rd_3000: "rd 3000 = 3000"
  by (subst rd_eval [where e = 11 and u = "1 / 2 ^ 41"])
     (simp_all add: round_even_def Let_def powr_neg_numeral)

lemma rd_9000: "rd 9000 = 9000"
  by (subst rd_eval [where e = 13 and u = "1 / 2 ^ 39"])
     (simp_all add: round_even_def Let_def powr_neg_numeral)

lemma rd_12000: "rd 12000 = 12000"
  by (subst rd_eval [where e = 13 and u = "1 / 2 ^ 39"])
     (simp_all add: round_even_def Let_def powr_neg_numeral)

lemma rd_x1: "rd (3588421754863467 / 2 ^ 40) = 3588421754863467 / 2 ^ 40"
  by (subst rd_eval [where e = 11 and u = "1 / 2 ^ 41"])
     (simp_all add: round_even_def Let_def powr_neg_numeral)

lemma rd_x2: "rd (7176843509726935 / 2 ^ 41) = 7176843509726935 / 2 ^ 41"
  by (subst rd_eval [where e = 11 and u = "1 / 2 ^ 41"])
     (simp_all add: round_even_def Let_def powr_neg_numeral)

lemma rd_x1_plus_K: "rd (3588421754863467 / 2 ^ 40 + 3000) = 6886956638191467 / 2 ^ 40"
  by (subst rd_eval [where e = 12 and u = "1 / 2 ^ 40"])
     (simp_all add: round_even_def Let_def powr_neg_numeral)

lemma rd_x2_plus_K: "rd (7176843509726935 / 2 ^ 41 + 3000) = 1721739159547867 / 2 ^ 38"
  by (subst rd_eval [where e = 12 and u = "1 / 2 ^ 40"])
     (simp_all add: round_even_def Let_def powr_neg_numeral)

lemma rd_q1:
  "rd (3588421754863467 / 2 ^ 40 / (6886956638191467 / 2 ^ 40)) = 4693165857450546 / 2 ^ 53"
  by (subst rd_eval [where e = "- 1" and u = "1 / 2 ^ 53"])
     (simp_all add: round_even_def Let_def powr_neg_numeral)

lemma rd_q2:
  "rd (7176843509726935 / 2 ^ 41 / (1721739159547867 / 2 ^ 38)) = 4693165857450545 / 2 ^ 53"
  by (subst rd_eval [where e = "- 1" and u = "1 / 2 ^ 53"])
     (simp_all add: round_even_def Let_def powr_neg_numeral)

section \<open>The claims\<close>

subsection \<open>Adstock Transform\<close>

text \<open>
  C1. The Adstock Transform is specified to return a sequence of the same length whose
  element 0 is \<open>spend[0]\<close> and whose element \<open>t \<ge> 1\<close> is \<open>spend[t] + \<alpha> * out[t-1]\<close>,
  so that a one-element input comes back unchanged. The module's loop starts at
  \<open>t = 1\<close> over an array of zeros and never writes element 0: the one-element input
  \<open>[5]\<close> comes back as \<open>[0]\<close>, and for \<open>[7, 3]\<close> with \<open>\<alpha> = 1/2\<close> the result is
  \<open>[0, 3]\<close>, not \<open>[7, 6.5]\<close>: the first week's spend is neither kept nor carried over.
\<close>

theorem apply_adstock_first_week_dropped:
  "apply_adstock [5] (1 / 2) = [0] \<and> apply_adstock [7, 3] (1 / 2) = [0, 3]"
  by (simp add: apply_adstock_def adstock_loop.simps)

text \<open>
  C8. For a spend sequence with no negative element and decay parameters
  \<open>0 \<le> \<alpha>\<^sub>1 \<le> \<alpha>\<^sub>2\<close>, the adstocked value at every index \<open>t \<ge> 1\<close> under \<open>\<alpha>\<^sub>2\<close> is at
  least the one under \<open>\<alpha>\<^sub>1\<close>: increasing the decay parameter never decreases an output.
\<close>

theorem apply_adstock_monotone_in_alpha:
  assumes "\<forall>x\<in>set spend. 0 \<le> x" and "0 \<le> a1" and "a1 \<le> a2"
    and "1 \<le> t" and "t < length spend"
  shows "apply_adstock spend a1 ! t \<le> apply_adstock spend a2 ! t"
  using assms by (simp add: apply_adstock_mono_nth)

theorem apply_adstock_monotone_in_alpha_witness:
  "apply_adstock [100, 200, 50] (1 / 10) ! 2 \<le> apply_adstock [100, 200, 50] (6 / 10) ! 2
   \<and> apply_adstock [100, 200, 50] (1 / 10) ! 2 = 70
   \<and> apply_adstock [100, 200, 50] (6 / 10) ! 2 = 170"
proof -
  have "apply_adstock [100, 200, 50] (1 / 10) ! 2 \<le> apply_adstock [100, 200, 50] (6 / 10) ! 2"
    by (rule apply_adstock_monotone_in_alpha) simp_all
  moreover have "apply_adstock [100, 200, 50] (1 / 10) ! 2 = 70"
    by (simp add: apply_adstock_def adstock_loop.simps)
  moreover have "apply_adstock [100, 200, 50] (6 / 10) ! 2 = 170"
    by (simp add: apply_adstock_def adstock_loop.simps)
  ultimately show ?thesis by simp
qed

subsection \<open>Saturation Transform\<close>

text \<open>
  C3, as stated, says that for \<open>K > 0\<close> and nonnegative finite inputs the Saturation
  Transform is increasing, stays below 1 and is exactly \<open>1/2\<close> at \<open>K\<close>. The module
  computes \<open>x / (x + K)\<close> in float64, where each of the three fails:
  \<^item> \<open>x = 10^17\<close>, \<open>K = 1\<close>: the sum rounds to \<open>x\<close> and the result is 1;
  \<^item> \<open>x = K = 2^1023\<close>: the sum overflows to infinity and the result is 0, not \<open>1/2\<close>;
  \<^item> \<open>K = 3000\<close>, \<open>x = 3588421754863467 / 2^40\<close> (about 3263.65) and the next double
    after it: the larger input gives the smaller result.
\<close>

theorem apply_saturation_float64_not_hill:
  "is_double 100000000000000000 \<and> is_double 1 \<and>
   apply_saturation_float64 [Fin 100000000000000000] (Fin 1) = [Fin 1] \<and>
   is_double (2 ^ 1023) \<and>
   apply_saturation_float64 [Fin (2 ^ 1023)] (Fin (2 ^ 1023)) = [Fin 0] \<and>
   is_double 3000 \<and>
   is_double (3588421754863467 / 2 ^ 40) \<and> is_double (7176843509726935 / 2 ^ 41) \<and>
   (3588421754863467 / 2 ^ 40 :: real) < 7176843509726935 / 2 ^ 41 \<and>
   apply_saturation_float64
     [Fin (3588421754863467 / 2 ^ 40), Fin (7176843509726935 / 2 ^ 41)] (Fin 3000) =
     [Fin (4693165857450546 / 2 ^ 53), Fin (4693165857450545 / 2 ^ 53)] \<and>
   (4693165857450545 / 2 ^ 53 :: real) < 4693165857450546 / 2 ^ 53"
proof -
  have d1: "is_double 100000000000000000" by (rule is_doubleI [OF rd_1e17]) simp_all
  have a1: "fp_add (Fin 100000000000000000) (Fin 1) = Fin 100000000000000000"
    using round_double_value [OF rd_1e17_plus_1] by simp
  have "fp_div (Fin 100000000000000000) (Fin 100000000000000000) = Fin 1"
    using round_double_value [OF rd_1] by simp
  with a1 have c1: "apply_saturation_float64 [Fin 100000000000000000] (Fin 1) = [Fin 1]"
    by (simp add: apply_saturation_float64_def)
  have d2: "is_double (2 ^ 1023)" by (rule is_doubleI [OF rd_2_1023]) simp_all
  have "(2::real) ^ 1023 + 2 ^ 1023 = 2 ^ 1024" by simp
  then have "fp_add (Fin (2 ^ 1023)) (Fin (2 ^ 1023)) = round_double (2 ^ 1024)"
    by (simp only: fp_add.simps)
  also have "\<dots> = PosInf" by (rule round_double_overflow) (simp only: rd_2_1024 order_refl)
  finally have c2: "apply_saturation_float64 [Fin (2 ^ 1023)] (Fin (2 ^ 1023)) = [Fin 0]"
    by (simp add: apply_saturation_float64_def)
  have d3: "is_double 3000" by (rule is_doubleI [OF rd_3000]) simp_all
  have dx1: "is_double (3588421754863467 / 2 ^ 40)" by (rule is_doubleI [OF rd_x1]) simp_all
  have dx2: "is_double (7176843509726935 / 2 ^ 41)" by (rule is_doubleI [OF rd_x2]) simp_all
  have s1: "fp_add (Fin (3588421754863467 / 2 ^ 40)) (Fin 3000) = Fin (6886956638191467 / 2 ^ 40)"
    unfolding fp_add.simps by (rule round_double_value [OF rd_x1_plus_K]) simp_all
  have s2: "fp_add (Fin (7176843509726935 / 2 ^ 41)) (Fin 3000) = Fin (1721739159547867 / 2 ^ 38)"
    unfolding fp_add.simps by (rule round_double_value [OF rd_x2_plus_K]) simp_all
  have n1: "(6886956638191467 / 2 ^ 40 :: real) \<noteq> 0" and n2: "(1721739159547867 / 2 ^ 38 :: real) \<noteq> 0"
    by simp_all
  have q1: "fp_div (Fin (3588421754863467 / 2 ^ 40)) (Fin (6886956638191467 / 2 ^ 40)) =
      Fin (4693165857450546 / 2 ^ 53)"
    unfolding fp_div.simps if_not_P [OF n1] by (rule round_double_value [OF rd_q1]) simp_all
  have q2: "fp_div (Fin (7176843509726935 / 2 ^ 41)) (Fin (1721739159547867 / 2 ^ 38)) =
      Fin (4693165857450545 / 2 ^ 53)"
    unfolding fp_div.simps if_not_P [OF n2] by (rule round_double_value [OF rd_q2]) simp_all
  have c3: "apply_saturation_float64
     [Fin (3588421754863467 / 2 ^ 40), Fin (7176843509726935 / 2 ^ 41)] (Fin 3000) =
     [Fin (4693165857450546 / 2 ^ 53), Fin (4693165857450545 / 2 ^ 53)]"
    unfolding apply_saturation_float64_def list.map s1 s2 q1 q2 ..
  have lt: "(3588421754863467 / 2 ^ 40 :: real) < 7176843509726935 / 2 ^ 41" by simp
  have gt: "(4693165857450545 / 2 ^ 53 :: real) < 4693165857450546 / 2 ^ 53" by simp
  from d1 is_double_1 c1 d2 c2 d3 dx1 dx2 lt c3 gt show ?thesis by blast
qed

text \<open>
  C3, amended. For a half-saturation constant \<open>K > 0\<close> and a nonnegative finite input \<open>x\<close>
  (both doubles), the Saturation Transform returns a sequence of the same length whose
  element is the float64 quotient of \<open>x\<close> by the float64 sum \<open>x + K\<close>. That value is a
  finite number in \<open>[0, 1]\<close>; it is exactly 0 at \<open>x = 0\<close>; at \<open>x = K\<close> it is exactly \<open>1/2\<close>
  when \<open>2K\<close> is below \<open>2^1024\<close>, and 0 otherwise; it is 0 whenever the sum overflows, and
  otherwise it is within \<open>2^-52\<close> of the exact Hill value \<open>x / (x + K)\<close>. The exact Hill
  value lies in \<open>[0, 1)\<close> and is strictly increasing in \<open>x\<close>; for the computed value
  neither is promised.
\<close>

theorem apply_saturation_float64_hill:
  assumes "0 < K" and "is_double K"
    and "i < length xs" and "0 \<le> xs ! i" and "is_double (xs ! i)"
  shows "length (apply_saturation_float64 (map Fin xs) (Fin K)) = length xs \<and>
    apply_saturation_float64 (map Fin xs) (Fin K) ! i =
      fp_div (Fin (xs ! i)) (fp_add (Fin (xs ! i)) (Fin K)) \<and>
    (\<exists>q. apply_saturation_float64 (map Fin xs) (Fin K) ! i = Fin q \<and>
       0 \<le> q \<and> q \<le> 1 \<and>
       (xs ! i = 0 \<longrightarrow> q = 0) \<and>
       (xs ! i = K \<longrightarrow> q = (if 2 * K < 2 ^ 1024 then 1 / 2 else 0)) \<and>
       (fp_add (Fin (xs ! i)) (Fin K) = PosInf \<longrightarrow> q = 0) \<and>
       (fp_add (Fin (xs ! i)) (Fin K) \<noteq> PosInf \<longrightarrow>
          \<bar>q - xs ! i / (xs ! i + K)\<bar> \<le> 1 / 2 ^ 52)) \<and>
    0 \<le> xs ! i / (xs ! i + K) \<and> xs ! i / (xs ! i + K) < 1 \<and>
    (\<forall>y. xs ! i < y \<longrightarrow> xs ! i / (xs ! i + K) < y / (y + K))"
proof -
  let ?x = "xs ! i"
  have len: "length (apply_saturation_float64 (map Fin xs) (Fin K)) = length xs"
    by (simp add: apply_saturation_float64_def)
  have el: "apply_saturation_float64 (map Fin xs) (Fin K) ! i =
      fp_div (Fin ?x) (fp_add (Fin ?x) (Fin K))"
    using assms(3) by (simp add: apply_saturation_float64_def)
  from saturation_float64_value [OF assms(4,5,1,2)] obtain q where
    q: "fp_div (Fin ?x) (fp_add (Fin ?x) (Fin K)) = Fin q" "0 \<le> q" "q \<le> 1"
      "?x = 0 \<longrightarrow> q = 0" "?x = K \<longrightarrow> q = (if 2 * K < 2 ^ 1024 then 1 / 2 else 0)"
    by blast
  have ov: "q = 0" if "fp_add (Fin ?x) (Fin K) = PosInf"
    using q(1) that by simp
  have cl: "\<bar>q - ?x / (?x + K)\<bar> \<le> 1 / 2 ^ 52" if "fp_add (Fin ?x) (Fin K) \<noteq> PosInf"
    using saturation_float64_close [OF assms(4,5,1,2) that] q(1) by simp
  have ex: "0 \<le> ?x / (?x + K)" "?x / (?x + K) < 1"
    using saturation_value_bounds [OF assms(1,4)] by simp_all
  have mono: "?x / (?x + K) < y / (y + K)" if "?x < y" for y
    using assms(1,4) that by (rule saturation_value_strict_mono)
  from len el q ov cl ex mono show ?thesis unfolding el by blast
qed

theorem apply_saturation_float64_hill_witness:
  "(0::real) < 3000 \<and> is_double 3000 \<and> is_double 0 \<and> is_double 9000 \<and>
   apply_saturation_float64 [Fin 0, Fin 3000, Fin 9000] (Fin 3000) ! 0 = Fin 0 \<and>
   apply_saturation_float64 [Fin 0, Fin 3000, Fin 9000] (Fin 3000) ! 1 = Fin (1 / 2) \<and>
   fp_add (Fin 9000) (Fin 3000) = Fin 12000 \<and>
   (\<exists>q. apply_saturation_float64 [Fin 0, Fin 3000, Fin 9000] (Fin 3000) ! 2 = Fin q \<and>
      0 \<le> q \<and> q \<le> 1 \<and> \<bar>q - 9000 / (9000 + 3000)\<bar> \<le> 1 / 2 ^ 52) \<and>
   (9000 / (9000 + 3000) :: real) < 10000 / (10000 + 3000) \<and>
   (0::real) < 2 ^ 1023 \<and> is_double (2 ^ 1023) \<and>
   apply_saturation_float64 [Fin (2 ^ 1023)] (Fin (2 ^ 1023)) ! 0 = Fin 0"
proof -
  have K: "(0::real) < 3000" by simp
  have dK: "is_double 3000" by (rule is_doubleI [OF rd_3000]) simp_all
  have d9: "is_double 9000" by (rule is_doubleI [OF rd_9000]) simp_all
  have m: "map Fin [0, 3000, 9000] = [Fin 0, Fin 3000, Fin 9000]" by simp
  have p0: "0 < length [0, 3000, 9000 :: real]" "0 \<le> [0, 3000, 9000 :: real] ! 0"
    "is_double ([0, 3000, 9000] ! 0)" by (simp_all add: is_double_0)
  from apply_saturation_float64_hill [OF K dK p0, THEN conjunct2, THEN conjunct2, THEN conjunct1]
  obtain q0 where q0: "apply_saturation_float64 (map Fin [0, 3000, 9000]) (Fin 3000) ! 0 = Fin q0"
    "[0, 3000, 9000 :: real] ! 0 = 0 \<longrightarrow> q0 = 0"
    by blast
  from q0(2) have "q0 = 0" by simp
  with q0(1) have c0: "apply_saturation_float64 [Fin 0, Fin 3000, Fin 9000] (Fin 3000) ! 0 = Fin 0"
    unfolding m by (simp only:)
  have p1: "1 < length [0, 3000, 9000 :: real]" "0 \<le> [0, 3000, 9000 :: real] ! 1"
    "is_double ([0, 3000, 9000] ! 1)" by (simp_all add: dK)
  from apply_saturation_float64_hill [OF K dK p1, THEN conjunct2, THEN conjunct2, THEN conjunct1]
  obtain q1 where q1: "apply_saturation_float64 (map Fin [0, 3000, 9000]) (Fin 3000) ! 1 = Fin q1"
    "[0, 3000, 9000 :: real] ! 1 = 3000 \<longrightarrow> q1 = (if 2 * 3000 < (2::real) ^ 1024 then 1 / 2 else 0)"
    by blast
  from q1(2) have "q1 = 1 / 2" by simp
  with q1(1) have c1: "apply_saturation_float64 [Fin 0, Fin 3000, Fin 9000] (Fin 3000) ! 1 = Fin (1 / 2)"
    unfolding m by (simp only:)
  have a: "fp_add (Fin 9000) (Fin 3000) = Fin 12000"
    using round_double_value [OF rd_12000] by simp
  have p2: "2 < length [0, 3000, 9000 :: real]" "0 \<le> [0, 3000, 9000 :: real] ! 2"
    "is_double ([0, 3000, 9000] ! 2)" by (simp_all add: d9)
  from apply_saturation_float64_hill [OF K dK p2, THEN conjunct2, THEN conjunct2, THEN conjunct1]
  obtain q2 where q2: "apply_saturation_float64 (map Fin [0, 3000, 9000]) (Fin 3000) ! 2 = Fin q2"
    "0 \<le> q2" "q2 \<le> 1"
    "fp_add (Fin ([0, 3000, 9000] ! 2)) (Fin 3000) \<noteq> PosInf \<longrightarrow>
       \<bar>q2 - [0, 3000, 9000] ! 2 / ([0, 3000, 9000] ! 2 + 3000)\<bar> \<le> 1 / 2 ^ 52"
    by blast
  have "[0, 3000, 9000 :: real] ! 2 = 9000" by simp
  with q2(4) a have "\<bar>q2 - 9000 / (9000 + 3000)\<bar> \<le> 1 / 2 ^ 52" by (simp only:) simp
  with q2(1-3)
  have c2: "\<exists>q. apply_saturation_float64 [Fin 0, Fin 3000, Fin 9000] (Fin 3000) ! 2 = Fin q \<and>
      0 \<le> q \<and> q \<le> 1 \<and> \<bar>q - 9000 / (9000 + 3000)\<bar> \<le> 1 / 2 ^ 52"
    unfolding m by blast
  from apply_saturation_float64_hill [OF K dK p2, THEN conjunct2, THEN conjunct2, THEN conjunct2,
      THEN conjunct2, THEN conjunct2, rule_format, of 10000]
  have c3: "(9000 / (9000 + 3000) :: real) < 10000 / (10000 + 3000)" by simp
  have B: "(0::real) < 2 ^ 1023" by simp
  have dB: "is_double (2 ^ 1023)" by (rule is_doubleI [OF rd_2_1023]) simp_all
  have mB: "map Fin [2 ^ 1023] = [Fin (2 ^ 1023)]" by simp
  have pB: "0 < length [2 ^ 1023 :: real]" "0 \<le> [2 ^ 1023 :: real] ! 0" by simp_all
  have pB3: "is_double ([2 ^ 1023] ! 0)" by (simp only: nth_Cons_0 dB)
  from apply_saturation_float64_hill [OF B dB pB pB3, THEN conjunct2, THEN conjunct2, THEN conjunct1]
  obtain qB where qB: "apply_saturation_float64 (map Fin [2 ^ 1023]) (Fin (2 ^ 1023)) ! 0 = Fin qB"
    "[2 ^ 1023 :: real] ! 0 = 2 ^ 1023 \<longrightarrow>
       qB = (if 2 * 2 ^ 1023 < (2::real) ^ 1024 then 1 / 2 else 0)"
    by blast
  from qB(2) have "qB = 0" by simp
  with qB(1) have c4: "apply_saturation_float64 [Fin (2 ^ 1023)] (Fin (2 ^ 1023)) ! 0 = Fin 0"
    unfolding mB by (simp only:)
  from K dK is_double_0 d9 c0 c1 a c2 c3 B dB c4 show ?thesis by blast
qed

subsection \<open>Spend Simulator\<close>

text \<open>
  C4. In a run with \<open>weeks \<ge> 0\<close>, TV spend at index \<open>i\<close> is the \<open>i\<close>-th Gamma variate
  plus 5000 exactly when \<open>\<lfloor>weeks/3\<rfloor> \<le> i < \<lfloor>weeks/3\<rfloor> + 10\<close>, and the variate alone at
  every other index; the window is cut at the end of the sequence and the run still
  succeeds. For \<open>weeks = 156\<close> the boosted indices are exactly 52 to 61.
\<close>

theorem campaign_boost_window:
  assumes "0 \<le> weeks"
  shows "(\<exists>d. generate_mmm_data R weeks s0 = (Inr d, snd (noise_sample R weeks)) \<and>
      length (tv_spend d) = nat weeks \<and>
      (\<forall>i<nat weeks. tv_spend d ! i =
         fst (gamma_sample R weeks) ! i +
           (if weeks div 3 \<le> int i \<and> int i < weeks div 3 + 10 then 5000 else 0)))
    \<and> (\<exists>d. generate_mmm_data R 156 s0 = (Inr d, snd (noise_sample R 156)) \<and>
      length (tv_spend d) = 156 \<and>
      (\<forall>i<156. tv_spend d ! i =
         fst (gamma_sample R 156) ! i + (if 52 \<le> i \<and> i \<le> 61 then 5000 else 0)))"
proof
  from assms obtain d where
    d: "generate_mmm_data R weeks s0 = (Inr d, snd (noise_sample R weeks))"
    by (rule generate_columns)
  from generate_lengths(2) [OF assms d] generate_tv_spend_nth [OF d] d
  show "\<exists>d. generate_mmm_data R weeks s0 = (Inr d, snd (noise_sample R weeks)) \<and>
      length (tv_spend d) = nat weeks \<and>
      (\<forall>i<nat weeks. tv_spend d ! i =
         fst (gamma_sample R weeks) ! i +
           (if weeks div 3 \<le> int i \<and> int i < weeks div 3 + 10 then 5000 else 0))"
    by blast
next
  have w: "(0::int) \<le> 156" by simp
  from w obtain d where
    d: "generate_mmm_data R 156 s0 = (Inr d, snd (noise_sample R 156))"
    by (rule generate_columns)
  have len: "length (tv_spend d) = 156"
    using generate_lengths(2) [OF w d] by simp
  have "tv_spend d ! i =
         fst (gamma_sample R 156) ! i + (if 52 \<le> i \<and> i \<le> 61 then 5000 else 0)"
    if "i < 156" for i
  proof -
    from that have "i < nat 156" by simp
    from generate_tv_spend_nth [OF d this] show ?thesis
      by (simp add: Suc_le_eq [symmetric] if_distrib cong: if_cong) 
  qed
  with d len
  show "\<exists>d. generate_mmm_data R 156 s0 = (Inr d, snd (noise_sample R 156)) \<and>
      length (tv_spend d) = 156 \<and>
      (\<forall>i<156. tv_spend d ! i =
         fst (gamma_sample R 156) ! i + (if 52 \<le> i \<and> i \<le> 61 then 5000 else 0))"
    by blast
qed

theorem campaign_boost_window_witness:
  "(0::int) \<le> 4 \<and>
   (\<exists>d. generate_mmm_data counter_rng 4 7 = (Inr d, 54) \<and>
      fst (gamma_sample counter_rng 4) = [0, 2000, 4000, 0] \<and>
      tv_spend d ! 0 = 0 \<and> tv_spend d ! 1 = 7000 \<and>
      tv_spend d ! 2 = 9000 \<and> tv_spend d ! 3 = 5000) \<and>
   (\<exists>d. generate_mmm_data counter_rng 156 7 = (Inr d, snd (noise_sample counter_rng 156)) \<and>
      tv_spend d ! 51 = fst (gamma_sample counter_rng 156) ! 51 \<and>
      tv_spend d ! 52 = fst (gamma_sample counter_rng 156) ! 52 + 5000 \<and>
      tv_spend d ! 61 = fst (gamma_sample counter_rng 156) ! 61 + 5000 \<and>
      tv_spend d ! 62 = fst (gamma_sample counter_rng 156) ! 62)"
proof -
  have w: "(0::int) \<le> 4" by simp
  note h = campaign_boost_window [OF w, of counter_rng 7]
  from h [THEN conjunct1] obtain d where
    run: "generate_mmm_data counter_rng 4 7 = (Inr d, snd (noise_sample counter_rng 4))" and
    nth: "\<forall>i<nat 4. tv_spend d ! i =
         fst (gamma_sample counter_rng 4) ! i +
           (if 4 div 3 \<le> int i \<and> int i < 4 div 3 + 10 then 5000 else 0)"
    by blast
  from run have r: "generate_mmm_data counter_rng 4 7 = (Inr d, 54)"
    by (simp add: counter_noise_sample_4)
  have g: "fst (gamma_sample counter_rng 4) = [0, 2000, 4000, 0]"
    by (simp add: counter_gamma_sample_4)
  from nth [rule_format, of 0] have t0: "tv_spend d ! 0 = 0" unfolding g by simp
  from nth [rule_format, of 1] have t1: "tv_spend d ! 1 = 7000" unfolding g by simp
  from nth [rule_format, of 2] have t2: "tv_spend d ! 2 = 9000" unfolding g by simp
  from nth [rule_format, of 3] have t3: "tv_spend d ! 3 = 5000" unfolding g by simp
  from h [THEN conjunct2] obtain e where
    rune: "generate_mmm_data counter_rng 156 7 = (Inr e, snd (noise_sample counter_rng 156))" and
    nthe: "\<forall>i<156. tv_spend e ! i =
         fst (gamma_sample counter_rng 156) ! i + (if 52 \<le> i \<and> i \<le> 61 then 5000 else 0)"
    by blast
  from nthe [rule_format, of 51]
  have e51: "tv_spend e ! 51 = fst (gamma_sample counter_rng 156) ! 51" by simp
  from nthe [rule_format, of 52]
  have e52: "tv_spend e ! 52 = fst (gamma_sample counter_rng 156) ! 52 + 5000" by simp
  from nthe [rule_format, of 61]
  have e61: "tv_spend e ! 61 = fst (gamma_sample counter_rng 156) ! 61 + 5000" by simp
  from nthe [rule_format, of 62]
  have e62: "tv_spend e ! 62 = fst (gamma_sample counter_rng 156) ! 62" by simp
  from w r g t0 t1 t2 t3 rune e51 e52 e61 e62 show ?thesis by blast
qed

text \<open>
  C7. In every Dataset a run returns, every Search spend value is at least 500, and,
  the Gamma sampler returning no negative variate, no TV spend value is negative.
\<close>

theorem spend_floor:
  assumes "gamma_nonneg R" and "generate_mmm_data R weeks s0 = (Inr d, s)"
  shows "(\<forall>x\<in>set (search_spend d). 500 \<le> x) \<and> (\<forall>x\<in>set (tv_spend d). 0 \<le> x)"
  using generate_search_spend_floor [OF assms(2)] generate_tv_spend_nonneg [OF assms]
  by simp

theorem spend_floor_witness:
  "gamma_nonneg counter_rng \<and>
   (\<exists>d. generate_mmm_data counter_rng 4 7 = (Inr d, 54) \<and>
      fst (search_sample counter_rng 4) = [2000, 2500, 3000, 0] \<and>
      search_spend d = [2000, 2500, 3000, 500] \<and>
      tv_spend d = [0, 7000, 9000, 5000] \<and>
      list_all (\<lambda>x. 500 \<le> x) (search_spend d) \<and>
      list_all (\<lambda>x. 0 \<le> x) (tv_spend d))"
proof -
  obtain d where d: "generate_mmm_data counter_rng 4 7 = (Inr d, 54)"
    "tv_spend d = [0, 7000, 9000, 5000]" "search_spend d = [2000, 2500, 3000, 500]"
    by (rule counter_run_4)
  note h = spend_floor [OF counter_gamma_nonneg d(1)]
  from h have "list_all (\<lambda>x. 500 \<le> x) (search_spend d)" "list_all (\<lambda>x. 0 \<le> x) (tv_spend d)"
    by (simp_all add: list_all_iff)
  moreover have "fst (search_sample counter_rng 4) = [2000, 2500, 3000, 0]"
    by (simp add: counter_search_sample_4)
  ultimately show ?thesis using counter_gamma_nonneg d by blast
qed

subsection \<open>Sales Composer\<close>

text \<open>
  C2. For every week index \<open>t\<close> of a run with \<open>weeks \<ge> 0\<close>, the sales value is
  \<open>(10000 + 0.5 * 50000 * effect_tv[t] + 0.3 * 20000 * effect_search[t]) * seasonality[t]
  + noise[t]\<close>, where \<open>seasonality[t] = 1 + 0.2 * sin (2\<pi>t / 52)\<close>, the effects are the
  saturation (\<open>K = 3000\<close> for TV, \<open>500\<close> for Search) of the adstock (\<open>\<alpha> = 0.6\<close>, \<open>0.1\<close>)
  of the run's own spend columns, as \<open>apply_adstock\<close> computes it, and \<open>noise[t]\<close> is the
  \<open>t\<close>-th variate of the Normal(0, 500) call made after both spend calls. Nothing
  clamps the value.
\<close>

theorem sales_composition:
  assumes "0 \<le> weeks" and "t < nat weeks"
  shows "\<exists>d. generate_mmm_data R weeks s0 = (Inr d, snd (noise_sample R weeks)) \<and>
    sales d ! t =
      (10000 + 0.5 * 50000 * apply_saturation (apply_adstock (tv_spend d) 0.6) 3000 ! t
         + 0.3 * 20000 * apply_saturation (apply_adstock (search_spend d) 0.1) 500 ! t)
        * (1 + 0.2 * sin (2 * pi * real t / 52))
      + fst (noise_sample R weeks) ! t"
proof -
  from assms(1) obtain d where
    d: "generate_mmm_data R weeks s0 = (Inr d, snd (noise_sample R weeks))"
    by (rule generate_columns)
  from generate_sales_nth [OF assms(1) d assms(2)] d show ?thesis by blast
qed

theorem sales_composition_witness:
  "\<exists>d. generate_mmm_data counter_rng 4 7 = (Inr d, 54) \<and>
     tv_spend d = [0, 7000, 9000, 5000] \<and>
     search_spend d = [2000, 2500, 3000, 500] \<and>
     sales d ! 1 =
       (10000 + 0.5 * 50000 * (7000 / (7000 + 3000)) + 0.3 * 20000 * (2500 / (2500 + 500)))
         * (1 + 0.2 * sin (2 * pi * 1 / 52))
       + (- 1000)"
proof -
  have w: "(0::int) \<le> 4" and t: "(1::nat) < nat 4" by simp_all
  from sales_composition [OF w t, of counter_rng 7] obtain d where
    run: "generate_mmm_data counter_rng 4 7 = (Inr d, snd (noise_sample counter_rng 4))" and
    s: "sales d ! 1 =
      (10000 + 0.5 * 50000 * apply_saturation (apply_adstock (tv_spend d) 0.6) 3000 ! 1
         + 0.3 * 20000 * apply_saturation (apply_adstock (search_spend d) 0.1) 500 ! 1)
        * (1 + 0.2 * sin (2 * pi * real 1 / 52))
      + fst (noise_sample counter_rng 4) ! 1"
    by blast
  obtain d' where d': "generate_mmm_data counter_rng 4 7 = (Inr d', 54)"
    "tv_spend d' = [0, 7000, 9000, 5000]" "search_spend d' = [2000, 2500, 3000, 500]"
    by (rule counter_run_4)
  from run d'(1) have eq: "d' = d" by simp
  note tv = d'(2) [unfolded eq] and se = d'(3) [unfolded eq]
  have a: "apply_saturation (apply_adstock (tv_spend d) 0.6) 3000 ! 1 = 7000 / (7000 + 3000)"
    unfolding tv using adstock_eval_tv by (simp add: apply_saturation_def)
  have b: "apply_saturation (apply_adstock (search_spend d) 0.1) 500 ! 1 = 2500 / (2500 + 500)"
    unfolding se using adstock_eval_search by (simp add: apply_saturation_def)
  have c: "fst (noise_sample counter_rng 4) ! 1 = - 1000"
    by (simp add: counter_noise_sample_4)
  have "sales d ! 1 =
       (10000 + 0.5 * 50000 * (7000 / (7000 + 3000)) + 0.3 * 20000 * (2500 / (2500 + 500)))
         * (1 + 0.2 * sin (2 * pi * 1 / 52))
       + (- 1000)"
    unfolding s a b c by simp
  with d'(1) [unfolded eq] tv se show ?thesis by blast
qed

text \<open>
  C10. For a spend sequence with no negative element and \<open>0 \<le> \<alpha> < 1\<close>, no element of
  the adstocked sequence is negative, so with \<open>K > 0\<close> every denominator \<open>x + K\<close> of the
  saturation is strictly positive. In a run this holds for both channels (TV with
  \<open>\<alpha> = 0.6\<close>, \<open>K = 3000\<close>; Search with \<open>\<alpha> = 0.1\<close>, \<open>K = 500\<close>), the Gamma sampler
  returning no negative variate: the pipeline never divides by zero.
\<close>

theorem saturation_denominator_positive:
  "((\<forall>x\<in>set spend. 0 \<le> x) \<and> 0 \<le> alpha \<and> alpha < 1 \<and> 0 < K \<longrightarrow>
      (\<forall>y\<in>set (apply_adstock spend alpha). 0 \<le> y \<and> 0 < y + K)) \<and>
   (gamma_nonneg R \<and> generate_mmm_data R weeks s0 = (Inr d, s) \<longrightarrow>
      (\<forall>y\<in>set (apply_adstock (tv_spend d) 0.6). 0 \<le> y \<and> 0 < y + 3000) \<and>
      (\<forall>y\<in>set (apply_adstock (search_spend d) 0.1). 0 \<le> y \<and> 0 < y + 500))"
proof (intro conjI impI)
  assume a: "(\<forall>x\<in>set spend. 0 \<le> x) \<and> 0 \<le> alpha \<and> alpha < 1 \<and> 0 < K"
  then have "\<forall>y\<in>set (apply_adstock spend alpha). 0 \<le> y"
    by (intro apply_adstock_nonneg) simp_all
  with a show "\<forall>y\<in>set (apply_adstock spend alpha). 0 \<le> y \<and> 0 < y + K" by auto
next
  assume a: "gamma_nonneg R \<and> generate_mmm_data R weeks s0 = (Inr d, s)"
  then have "\<forall>x\<in>set (tv_spend d). 0 \<le> x"
    by (intro generate_tv_spend_nonneg [of R weeks s0 d s]) simp_all
  then have "\<forall>y\<in>set (apply_adstock (tv_spend d) 0.6). 0 \<le> y"
    by (intro apply_adstock_nonneg) simp_all
  then show "\<forall>y\<in>set (apply_adstock (tv_spend d) 0.6). 0 \<le> y \<and> 0 < y + 3000" by auto
next
  assume a: "gamma_nonneg R \<and> generate_mmm_data R weeks s0 = (Inr d, s)"
  then have "\<forall>x\<in>set (search_spend d). 500 \<le> x"
    by (intro generate_search_spend_floor [of R weeks s0 d s]) simp_all
  then have "\<forall>x\<in>set (search_spend d). 0 \<le> x" by auto
  then have "\<forall>y\<in>set (apply_adstock (search_spend d) 0.1). 0 \<le> y"
    by (intro apply_adstock_nonneg) simp_all
  then show "\<forall>y\<in>set (apply_adstock (search_spend d) 0.1). 0 \<le> y \<and> 0 < y + 500" by auto
qed

theorem saturation_denominator_positive_witness:
  "list_all (\<lambda>x. 0 \<le> x) [100, 200, 50 :: real] \<and> (0::real) \<le> 6 / 10 \<and> (6 / 10 :: real) < 1 \<and>
   (0::real) < 3000 \<and>
   apply_adstock [100, 200, 50] (6 / 10) = [0, 200, 170] \<and>
   list_all (\<lambda>y. 0 \<le> y \<and> 0 < y + 3000) (apply_adstock [100, 200, 50] (6 / 10)) \<and>
   gamma_nonneg counter_rng \<and>
   (\<exists>d. generate_mmm_data counter_rng 4 7 = (Inr d, 54) \<and>
      apply_adstock (tv_spend d) 0.6 = [0, 7000, 13200, 12920] \<and>
      apply_adstock (search_spend d) 0.1 = [0, 2500, 3250, 825] \<and>
      list_all (\<lambda>y. 0 \<le> y \<and> 0 < y + 3000) (apply_adstock (tv_spend d) 0.6) \<and>
      list_all (\<lambda>y. 0 \<le> y \<and> 0 < y + 500) (apply_adstock (search_spend d) 0.1))"
proof -
  have p: "(\<forall>x\<in>set [100, 200, 50 :: real]. 0 \<le> x) \<and> (0::real) \<le> 6 / 10 \<and>
      (6 / 10 :: real) < 1 \<and> (0::real) < 3000" by simp
  have ev: "apply_adstock [100, 200, 50] (6 / 10) = [0, 200, 170]"
    by (simp add: apply_adstock_def adstock_loop.simps)
  obtain d where d: "generate_mmm_data counter_rng 4 7 = (Inr d, 54)"
    "tv_spend d = [0, 7000, 9000, 5000]" "search_spend d = [2000, 2500, 3000, 500]"
    by (rule counter_run_4)
  from saturation_denominator_positive
    [of "[100, 200, 50]" "6 / 10" 3000 counter_rng 4 7 d 54,
     THEN conjunct1, rule_format, OF p]
  have g: "list_all (\<lambda>y. 0 \<le> y \<and> 0 < y + 3000) (apply_adstock [100, 200, 50] (6 / 10))"
    by (simp add: list_all_iff)
  from counter_gamma_nonneg d(1)
  have q: "gamma_nonneg counter_rng \<and> generate_mmm_data counter_rng 4 7 = (Inr d, 54)" by simp
  from saturation_denominator_positive
    [of "[100, 200, 50]" "6 / 10" 3000 counter_rng 4 7 d 54, THEN conjunct2, rule_format, OF q]
  have h: "list_all (\<lambda>y. 0 \<le> y \<and> 0 < y + 3000) (apply_adstock (tv_spend d) 0.6)"
    "list_all (\<lambda>y. 0 \<le> y \<and> 0 < y + 500) (apply_adstock (search_spend d) 0.1)"
    by (simp_all add: list_all_iff)
  have e1: "apply_adstock (tv_spend d) 0.6 = [0, 7000, 13200, 12920]"
    unfolding d(2) using adstock_eval_tv by simp
  have e2: "apply_adstock (search_spend d) 0.1 = [0, 2500, 3250, 825]"
    unfolding d(3) using adstock_eval_search by simp
  from p have p': "list_all (\<lambda>x. 0 \<le> x) [100, 200, 50 :: real]" "(0::real) \<le> 6 / 10"
    "(6 / 10 :: real) < 1" "(0::real) < 3000" by simp_all
  from p' ev g counter_gamma_nonneg d(1) e1 e2 h show ?thesis by blast
qed

subsection \<open>The generator as a whole\<close>

text \<open>
  C5. The generator re-seeds the random source with the constant 42 before anything
  else, so what it returns (the Dataset or the error, and the state it leaves) does not
  depend on the state of the random source it finds: two invocations with the same
  \<open>weeks\<close> return the same result, whatever happened in between.
\<close>

theorem generate_reseeds:
  "generate_mmm_data R weeks s = generate_mmm_data R weeks s'"
  by (simp add: generate_mmm_data_def)




text \<open>
  C9. For every \<open>weeks \<ge> 0\<close> the run returns a Dataset whose four columns have exactly
  \<open>weeks\<close> elements. Row \<open>t\<close> is week \<open>t\<close> in every column: its date is the \<open>t\<close>-th Sunday
  (day \<open>2 + 7t\<close> after 2021-01-01), its TV spend comes from the \<open>t\<close>-th Gamma variate and
  its Search spend from the \<open>t\<close>-th Normal variate; the dates are strictly ascending.
\<close>

theorem dataset_shape:
  assumes "0 \<le> weeks"
  shows "\<exists>d. generate_mmm_data R weeks s0 = (Inr d, snd (noise_sample R weeks)) \<and>
    length (week d) = nat weeks \<and> length (tv_spend d) = nat weeks \<and>
    length (search_spend d) = nat weeks \<and> length (sales d) = nat weeks \<and>
    (\<forall>t<nat weeks.
       week d ! t = 2 + 7 * int t \<and>
       tv_spend d ! t =
         fst (gamma_sample R weeks) ! t +
           (if weeks div 3 \<le> int t \<and> int t < weeks div 3 + 10 then 5000 else 0) \<and>
       search_spend d ! t = max (fst (search_sample R weeks) ! t) 500) \<and>
    sorted_wrt (<) (week d)"
proof -
  from assms obtain d where
    d: "generate_mmm_data R weeks s0 = (Inr d, snd (noise_sample R weeks))"
    by (rule generate_columns)
  note len = generate_lengths [OF assms d]
  have wk: "week d ! t = 2 + 7 * int t" if "t < nat weeks" for t
    unfolding generate_week [OF d] using that by (rule date_range_nth)
  have asc: "sorted_wrt (<) (week d)"
    unfolding generate_week [OF d] by (rule date_range_ascending)
  from d len wk generate_tv_spend_nth [OF d] generate_search_spend_nth [OF d] asc
  show ?thesis by blast
qed

theorem dataset_shape_witness:
  "(0::int) \<le> 4 \<and>
   (\<exists>d. generate_mmm_data counter_rng 4 7 = (Inr d, 54) \<and>
      week d = [2, 9, 16, 23] \<and>
      length (week d) = 4 \<and> length (tv_spend d) = 4 \<and>
      length (search_spend d) = 4 \<and> length (sales d) = 4 \<and>
      week d ! 3 = 23 \<and> tv_spend d ! 3 = 5000 \<and> search_spend d ! 3 = 500 \<and>
      sorted_wrt (<) (week d))"
proof -
  have w: "(0::int) \<le> 4" by simp
  from dataset_shape [OF w, of counter_rng 7] obtain d where
    run: "generate_mmm_data counter_rng 4 7 = (Inr d, snd (noise_sample counter_rng 4))" and
    len: "length (week d) = nat 4" "length (tv_spend d) = nat 4"
      "length (search_spend d) = nat 4" "length (sales d) = nat 4" and
    row: "\<forall>t<nat 4.
       week d ! t = 2 + 7 * int t \<and>
       tv_spend d ! t =
         fst (gamma_sample counter_rng 4) ! t +
           (if 4 div 3 \<le> int t \<and> int t < 4 div 3 + 10 then 5000 else 0) \<and>
       search_spend d ! t = max (fst (search_sample counter_rng 4) ! t) 500" and
    asc: "sorted_wrt (<) (week d)"
    by blast
  from run have r: "generate_mmm_data counter_rng 4 7 = (Inr d, 54)"
    by (simp add: counter_noise_sample_4)
  from row [rule_format, of 3]
  have r3: "week d ! 3 = 23" "tv_spend d ! 3 = 5000" "search_spend d ! 3 = 500"
    by (simp_all add: counter_gamma_sample_4 counter_search_sample_4)
  have wk: "week d = [2, 9, 16, 23]"
    unfolding generate_week [OF r] by (simp add: date_range_def upt_rec)
  from len have l: "length (week d) = 4" "length (tv_spend d) = 4"
      "length (search_spend d) = 4" "length (sales d) = 4" by simp_all
  from w r wk l r3 asc show ?thesis by blast
qed

end
